theory Spec2Isabelle
  imports Main "HOL-Library.Multiset"
begin

section \<open>Board model\<close>

text \<open>
  The program keeps the grid in a C array \<^verbatim>\<open>char board[BOARD_SIZE][BOARD_SIZE]\<close> with
  \<^verbatim>\<open>BOARD_SIZE = 3\<close>. An array is modelled as the function from its two \<^verbatim>\<open>int\<close> indices
  to the stored character; only the indices 0, 1, 2 are ever read or written by the code.
  A blank \<^verbatim>\<open>' '\<close> is an empty cell, \<^verbatim>\<open>'X'\<close> is the human side (PLAYER) and \<^verbatim>\<open>'O'\<close> the
  automated side (COMPUTER).
\<close>

type_synonym board = "int \<Rightarrow> int \<Rightarrow> char"

type_synonym Move = "int \<times> int"

definition PLAYER :: char where
  "PLAYER = CHR ''X''"

definition COMPUTER :: char where
  "COMPUTER = CHR ''O''"

definition EMPTY :: char where
  "EMPTY = CHR '' ''"

definition DRAW :: char where
  "DRAW = CHR ''D''"

definition INT_MIN :: int where
  "INT_MIN = - 2147483648"

definition INT_MAX :: int where
  "INT_MAX = 2147483647"

text \<open>The values of a loop variable in \<^verbatim>\<open>for (int i = 0; i < BOARD_SIZE; ++i)\<close>.\<close>

definition indices :: "int list" where
  "indices = [0, 1, 2]"

text \<open>
  The cells in the order in which the nested loops
  \<^verbatim>\<open>for i ... for j ...\<close> visit them (row-major).
\<close>

definition allCells :: "Move list" where
  "allCells = concat (map (\<lambda>i. map (\<lambda>j. (i, j)) indices) indices)"

text \<open>The assignment \<^verbatim>\<open>b[i][j] = c\<close>.\<close>

definition setCell :: "board \<Rightarrow> int \<Rightarrow> int \<Rightarrow> char \<Rightarrow> board" where
  "setCell b i j c = b(i := (b i)(j := c))"

text \<open>A board written row by row, for concrete positions.\<close>

definition mkBoard :: "string list \<Rightarrow> board" where
  "mkBoard rows = (\<lambda>i j. rows ! nat i ! nat j)"

definition emptyBoard :: board where
  "emptyBoard = (\<lambda>i j. EMPTY)"

text \<open>
  The empty cells in row-major order: the vector \<^verbatim>\<open>freeSpaces\<close> that \<^verbatim>\<open>simulateGame\<close>
  collects, and the \<^verbatim>\<open>untriedMoves\<close> a node constructor collects.
\<close>

definition freeCells :: "board \<Rightarrow> Move list" where
  "freeCells b = filter (\<lambda>(i, j). b i j = EMPTY) allCells"

text \<open>The counting loop of \<^verbatim>\<open>checkFreeSpaces\<close> and of the tail of \<^verbatim>\<open>checkWinner\<close>.\<close>

definition countFree :: "board \<Rightarrow> nat" where
  "countFree b = length (freeCells b)"

subsection \<open>checkWinner\<close>

text \<open>
  \<^verbatim>\<open>for (i...) if (b[i][0] == b[i][1] && b[i][0] == b[i][2] && b[i][0] != ' ') return b[i][0];\<close>
  The loop returns from the function at the first row that matches; \<open>None\<close> means that
  the loop ran to its end.
\<close>

fun checkRows :: "board \<Rightarrow> int list \<Rightarrow> char option" where
  "checkRows b [] = None"
| "checkRows b (i # is) =
     (if b i 0 = b i 1 \<and> b i 0 = b i 2 \<and> b i 0 \<noteq> EMPTY then Some (b i 0)
      else checkRows b is)"

fun checkCols :: "board \<Rightarrow> int list \<Rightarrow> char option" where
  "checkCols b [] = None"
| "checkCols b (i # is) =
     (if b 0 i = b 1 i \<and> b 0 i = b 2 i \<and> b 0 i \<noteq> EMPTY then Some (b 0 i)
      else checkCols b is)"

definition checkWinner :: "board \<Rightarrow> char" where
  "checkWinner b =
     (case checkRows b indices of
        Some c \<Rightarrow> c
      | None \<Rightarrow>
         (case checkCols b indices of
            Some c \<Rightarrow> c
          | None \<Rightarrow>
             if b 0 0 = b 1 1 \<and> b 0 0 = b 2 2 \<and> b 0 0 \<noteq> EMPTY then b 0 0
             else if b 0 2 = b 1 1 \<and> b 0 2 = b 2 0 \<and> b 0 2 \<noteq> EMPTY then b 0 2
             else if countFree b = 0 then DRAW
             else EMPTY))"

text \<open>
  The second version of the program in the repository tests the same three cells of a
  line in another order:
  \<^verbatim>\<open>b[i][0] != ' ' && b[i][0] == b[i][1] && b[i][1] == b[i][2]\<close>, and counts the free
  cells through \<^verbatim>\<open>countFreeSpaces\<close>.
\<close>

fun checkRows2 :: "board \<Rightarrow> int list \<Rightarrow> char option" where
  "checkRows2 b [] = None"
| "checkRows2 b (i # is) =
     (if b i 0 \<noteq> EMPTY \<and> b i 0 = b i 1 \<and> b i 1 = b i 2 then Some (b i 0)
      else checkRows2 b is)"

fun checkCols2 :: "board \<Rightarrow> int list \<Rightarrow> char option" where
  "checkCols2 b [] = None"
| "checkCols2 b (j # js) =
     (if b 0 j \<noteq> EMPTY \<and> b 0 j = b 1 j \<and> b 1 j = b 2 j then Some (b 0 j)
      else checkCols2 b js)"

definition checkWinner2 :: "board \<Rightarrow> char" where
  "checkWinner2 b =
     (case checkRows2 b indices of
        Some c \<Rightarrow> c
      | None \<Rightarrow>
         (case checkCols2 b indices of
            Some c \<Rightarrow> c
          | None \<Rightarrow>
             if b 0 0 \<noteq> EMPTY \<and> b 0 0 = b 1 1 \<and> b 1 1 = b 2 2 then b 0 0
             else if b 0 2 \<noteq> EMPTY \<and> b 0 2 = b 1 1 \<and> b 1 1 = b 2 0 then b 0 2
             else if countFree b = 0 then DRAW
             else EMPTY))"

subsection \<open>Lines, marks and well-formed positions\<close>

text \<open>The eight lines of the grid: three rows, three columns, two diagonals.\<close>

definition winLines :: "Move list list" where
  "winLines =
     [[(0, 0), (0, 1), (0, 2)], [(1, 0), (1, 1), (1, 2)], [(2, 0), (2, 1), (2, 2)],
      [(0, 0), (1, 0), (2, 0)], [(0, 1), (1, 1), (2, 1)], [(0, 2), (1, 2), (2, 2)],
      [(0, 0), (1, 1), (2, 2)], [(0, 2), (1, 1), (2, 0)]]"

text \<open>Every cell of the line carries the mark \<open>s\<close>.\<close>

definition lineOf :: "char \<Rightarrow> board \<Rightarrow> Move list \<Rightarrow> bool" where
  "lineOf s b l = list_all (\<lambda>(i, j). b i j = s) l"

definition hasLine :: "char \<Rightarrow> board \<Rightarrow> bool" where
  "hasLine s b = list_ex (lineOf s b) winLines"

text \<open>A line is complete when its three cells carry the same non-empty mark.\<close>

definition complete :: "board \<Rightarrow> Move list \<Rightarrow> bool" where
  "complete b l = (case l of [] \<Rightarrow> False | (i, j) # _ \<Rightarrow> b i j \<noteq> EMPTY \<and> lineOf (b i j) b l)"

text \<open>The mark on the first complete line, scanning rows, then columns, then diagonals.\<close>

definition firstLineMark :: "board \<Rightarrow> char option" where
  "firstLineMark b =
     (case List.find (complete b) winLines of
        None \<Rightarrow> None
      | Some l \<Rightarrow> (case l of [] \<Rightarrow> None | (i, j) # _ \<Rightarrow> Some (b i j)))"

text \<open>The cells of the grid hold nothing but a blank, an X or an O.\<close>

definition marksOnly :: "board \<Rightarrow> bool" where
  "marksOnly b = list_all (\<lambda>(i, j). b i j = EMPTY \<or> b i j = PLAYER \<or> b i j = COMPUTER) allCells"

subsection \<open>The game loop\<close>

text \<open>
  \<^verbatim>\<open>currentPlayer = (currentPlayer == PLAYER) ? COMPUTER : PLAYER;\<close>
\<close>

definition other :: "char \<Rightarrow> char" where
  "other p = (if p = PLAYER then COMPUTER else PLAYER)"

text \<open>
  The positions that the single-game loop of \<^verbatim>\<open>main\<close> can reach, with the side whose
  turn it is. A game starts from the board that \<^verbatim>\<open>resetBoard\<close> blanks, with
  \<^verbatim>\<open>currentPlayer = PLAYER\<close>. The loop body runs while \<^verbatim>\<open>winner == ' '\<close> and a free
  cell is left; the side to move writes its mark into an empty cell (the human through
  \<^verbatim>\<open>handlePlayerInput\<close>, which rejects occupied cells, the computer through one of the
  searches), and the turn passes to the other side only if \<^verbatim>\<open>checkWinner\<close> still returns
  a blank.
\<close>

inductive reachable :: "board \<Rightarrow> char \<Rightarrow> bool" where
  start: "reachable emptyBoard PLAYER"
| move: "reachable b p \<Longrightarrow> checkWinner b = EMPTY \<Longrightarrow> 0 < countFree b \<Longrightarrow>
         (i, j) \<in> set allCells \<Longrightarrow> b i j = EMPTY \<Longrightarrow> b' = setCell b i j p \<Longrightarrow>
         reachable b' (if checkWinner b' = EMPTY then other p else p)"

section \<open>Properties of the board model\<close>

lemma case_option_if:
  "(case (if c then Some x else r) of None \<Rightarrow> d | Some y \<Rightarrow> f y) =
   (if c then f x else (case r of None \<Rightarrow> d | Some y \<Rightarrow> f y))"
  by simp

lemma checkWinner_unfold:
  "checkWinner b =
     (if b 0 0 = b 0 1 \<and> b 0 0 = b 0 2 \<and> b 0 0 \<noteq> EMPTY then b 0 0
      else if b 1 0 = b 1 1 \<and> b 1 0 = b 1 2 \<and> b 1 0 \<noteq> EMPTY then b 1 0
      else if b 2 0 = b 2 1 \<and> b 2 0 = b 2 2 \<and> b 2 0 \<noteq> EMPTY then b 2 0
      else if b 0 0 = b 1 0 \<and> b 0 0 = b 2 0 \<and> b 0 0 \<noteq> EMPTY then b 0 0
      else if b 0 1 = b 1 1 \<and> b 0 1 = b 2 1 \<and> b 0 1 \<noteq> EMPTY then b 0 1
      else if b 0 2 = b 1 2 \<and> b 0 2 = b 2 2 \<and> b 0 2 \<noteq> EMPTY then b 0 2
      else if b 0 0 = b 1 1 \<and> b 0 0 = b 2 2 \<and> b 0 0 \<noteq> EMPTY then b 0 0
      else if b 0 2 = b 1 1 \<and> b 0 2 = b 2 0 \<and> b 0 2 \<noteq> EMPTY then b 0 2
      else if countFree b = 0 then DRAW
      else EMPTY)"
  by (simp only: checkWinner_def indices_def checkRows.simps checkCols.simps case_option_if option.case)

lemma complete3:
  "complete b [(i, j), p, q] = (b i j = b (fst p) (snd p) \<and> b i j = b (fst q) (snd q) \<and> b i j \<noteq> EMPTY)"
  by (auto simp: complete_def lineOf_def split: prod.splits)

lemma firstLineMark_unfold:
  "firstLineMark b =
     (if b 0 0 = b 0 1 \<and> b 0 0 = b 0 2 \<and> b 0 0 \<noteq> EMPTY then Some (b 0 0)
      else if b 1 0 = b 1 1 \<and> b 1 0 = b 1 2 \<and> b 1 0 \<noteq> EMPTY then Some (b 1 0)
      else if b 2 0 = b 2 1 \<and> b 2 0 = b 2 2 \<and> b 2 0 \<noteq> EMPTY then Some (b 2 0)
      else if b 0 0 = b 1 0 \<and> b 0 0 = b 2 0 \<and> b 0 0 \<noteq> EMPTY then Some (b 0 0)
      else if b 0 1 = b 1 1 \<and> b 0 1 = b 2 1 \<and> b 0 1 \<noteq> EMPTY then Some (b 0 1)
      else if b 0 2 = b 1 2 \<and> b 0 2 = b 2 2 \<and> b 0 2 \<noteq> EMPTY then Some (b 0 2)
      else if b 0 0 = b 1 1 \<and> b 0 0 = b 2 2 \<and> b 0 0 \<noteq> EMPTY then Some (b 0 0)
      else if b 0 2 = b 1 1 \<and> b 0 2 = b 2 0 \<and> b 0 2 \<noteq> EMPTY then Some (b 0 2)
      else None)"
  by (simp only: firstLineMark_def winLines_def find.simps complete3 fst_conv snd_conv
        if_distrib [of "case_option _ _"] option.case list.case prod.case)

lemma checkWinner_firstLine:
  "checkWinner b = (case firstLineMark b of Some s \<Rightarrow> s | None \<Rightarrow> if countFree b = 0 then DRAW else EMPTY)"
  by (simp only: checkWinner_unfold firstLineMark_unfold case_option_if option.case)

lemma marks_distinct:
  "PLAYER \<noteq> COMPUTER" "PLAYER \<noteq> EMPTY" "COMPUTER \<noteq> EMPTY"
  "DRAW \<noteq> EMPTY" "DRAW \<noteq> PLAYER" "DRAW \<noteq> COMPUTER"
  "COMPUTER \<noteq> PLAYER" "EMPTY \<noteq> PLAYER" "EMPTY \<noteq> COMPUTER"
  "EMPTY \<noteq> DRAW" "PLAYER \<noteq> DRAW" "COMPUTER \<noteq> DRAW"
  by (simp_all add: PLAYER_def COMPUTER_def EMPTY_def DRAW_def)

lemma allCells_unfold:
  "allCells = [(0, 0), (0, 1), (0, 2), (1, 0), (1, 1), (1, 2), (2, 0), (2, 1), (2, 2)]"
  by (simp add: allCells_def indices_def)

lemma winLines_cells: "l \<in> set winLines \<Longrightarrow> set l \<subseteq> set allCells \<and> l \<noteq> []"
  unfolding winLines_def allCells_unfold by (elim set_ConsD [elim_format] disjE) simp_all

lemma firstLineMark_Some:
  assumes "firstLineMark b = Some s"
  shows "hasLine s b \<and> s \<noteq> EMPTY \<and> (\<exists>(i, j) \<in> set allCells. b i j = s)"
proof -
  from assms obtain l where f: "List.find (complete b) winLines = Some l"
    by (auto simp: firstLineMark_def split: option.splits)
  then have l: "l \<in> set winLines" and c: "complete b l"
    by (auto simp: find_Some_iff)
  from c obtain i j r where lr: "l = (i, j) # r"
    by (cases l) (auto simp: complete_def)
  with assms f have s: "s = b i j"
    by (simp add: firstLineMark_def)
  from c lr s have "lineOf s b l" "s \<noteq> EMPTY"
    by (simp_all add: complete_def)
  moreover from winLines_cells [OF l] lr have "(i, j) \<in> set allCells"
    by simp
  ultimately show ?thesis using l s
    by (auto simp: hasLine_def list_ex_iff)
qed

lemma firstLineMark_None:
  assumes "firstLineMark b = None" and "s \<noteq> EMPTY"
  shows "\<not> hasLine s b"
proof
  assume "hasLine s b"
  then obtain l where l: "l \<in> set winLines" and ln: "lineOf s b l"
    by (auto simp: hasLine_def list_ex_iff)
  from winLines_cells [OF l] obtain i j r where lr: "l = (i, j) # r"
    by (cases l) auto
  with ln have "b i j = s"
    by (simp add: lineOf_def)
  with ln lr assms(2) have "complete b l"
    by (simp add: complete_def)
  with l have "List.find (complete b) winLines \<noteq> None"
    by (auto simp: find_None_iff)
  then obtain l' where f: "List.find (complete b) winLines = Some l'"
    by auto
  then have "l' \<in> set winLines"
    by (auto simp: find_Some_iff)
  from winLines_cells [OF this] obtain i' j' r' where "l' = (i', j') # r'"
    by (cases l') auto
  with f assms(1) show False
    by (simp add: firstLineMark_def)
qed

lemma marksOnly_cell:
  "marksOnly b \<Longrightarrow> (i, j) \<in> set allCells \<Longrightarrow> b i j = EMPTY \<or> b i j = PLAYER \<or> b i j = COMPUTER"
  by (auto simp: marksOnly_def list_all_iff)

lemma firstLineMark_marks:
  assumes "marksOnly b" and "firstLineMark b = Some s"
  shows "s = PLAYER \<or> s = COMPUTER"
  using firstLineMark_Some [OF assms(2)] marksOnly_cell [OF assms(1)] by blast

lemma checkWinner_cases:
  assumes "marksOnly b"
  shows "(checkWinner b = PLAYER \<longleftrightarrow> firstLineMark b = Some PLAYER) \<and>
         (checkWinner b = COMPUTER \<longleftrightarrow> firstLineMark b = Some COMPUTER) \<and>
         (checkWinner b = DRAW \<longleftrightarrow> firstLineMark b = None \<and> countFree b = 0) \<and>
         (checkWinner b = EMPTY \<longleftrightarrow> firstLineMark b = None \<and> countFree b \<noteq> 0)"
proof (cases "firstLineMark b")
  case None
  then show ?thesis
    by (simp add: checkWinner_firstLine marks_distinct)
next
  case (Some s)
  with firstLineMark_marks [OF assms Some] show ?thesis
    by (auto simp add: checkWinner_firstLine marks_distinct)
qed

lemma no_line_iff:
  assumes "marksOnly b"
  shows "firstLineMark b = None \<longleftrightarrow> \<not> hasLine PLAYER b \<and> \<not> hasLine COMPUTER b"
proof
  assume "firstLineMark b = None"
  then show "\<not> hasLine PLAYER b \<and> \<not> hasLine COMPUTER b"
    using firstLineMark_None [of b] by (simp add: marks_distinct)
next
  assume n: "\<not> hasLine PLAYER b \<and> \<not> hasLine COMPUTER b"
  show "firstLineMark b = None"
  proof (cases "firstLineMark b")
    case (Some s)
    with firstLineMark_marks [OF assms Some] firstLineMark_Some [OF Some] n show ?thesis
      by auto
  qed simp
qed

lemma firstLineMark_single:
  assumes "marksOnly b" and "\<not> (hasLine PLAYER b \<and> hasLine COMPUTER b)"
  shows "(firstLineMark b = Some PLAYER \<longleftrightarrow> hasLine PLAYER b) \<and>
         (firstLineMark b = Some COMPUTER \<longleftrightarrow> hasLine COMPUTER b)"
proof (cases "firstLineMark b")
  case None
  with no_line_iff [OF assms(1)] show ?thesis by simp
next
  case (Some s)
  with firstLineMark_marks [OF assms(1) Some] firstLineMark_Some [OF Some] assms(2)
  show ?thesis
    by (auto simp: marks_distinct)
qed

lemma checkWinner_single:
  assumes "marksOnly b" and "\<not> (hasLine PLAYER b \<and> hasLine COMPUTER b)"
  shows "(checkWinner b = PLAYER \<longleftrightarrow> hasLine PLAYER b) \<and>
         (checkWinner b = COMPUTER \<longleftrightarrow> hasLine COMPUTER b)"
  using checkWinner_cases [OF assms(1)] firstLineMark_single [OF assms] by simp

lemma checkRows2_eq: "checkRows2 b is = checkRows b is"
  by (induction "is") auto

lemma checkCols2_eq: "checkCols2 b is = checkCols b is"
  by (induction "is") auto

lemma checkWinner2_eq: "checkWinner2 b = checkWinner b"
proof -
  have d1: "(b 0 0 \<noteq> EMPTY \<and> b 0 0 = b 1 1 \<and> b 1 1 = b 2 2) =
            (b 0 0 = b 1 1 \<and> b 0 0 = b 2 2 \<and> b 0 0 \<noteq> EMPTY)"
    by auto
  have d2: "(b 0 2 \<noteq> EMPTY \<and> b 0 2 = b 1 1 \<and> b 1 1 = b 2 0) =
            (b 0 2 = b 1 1 \<and> b 0 2 = b 2 0 \<and> b 0 2 \<noteq> EMPTY)"
    by auto
  show ?thesis
    unfolding checkWinner2_def checkWinner_def checkRows2_eq checkCols2_eq d1 d2 ..
qed

lemma hasLine_unfold:
  "hasLine s b \<longleftrightarrow>
     (b 0 0 = s \<and> b 0 1 = s \<and> b 0 2 = s) \<or> (b 1 0 = s \<and> b 1 1 = s \<and> b 1 2 = s) \<or>
     (b 2 0 = s \<and> b 2 1 = s \<and> b 2 2 = s) \<or> (b 0 0 = s \<and> b 1 0 = s \<and> b 2 0 = s) \<or>
     (b 0 1 = s \<and> b 1 1 = s \<and> b 2 1 = s) \<or> (b 0 2 = s \<and> b 1 2 = s \<and> b 2 2 = s) \<or>
     (b 0 0 = s \<and> b 1 1 = s \<and> b 2 2 = s) \<or> (b 0 2 = s \<and> b 1 1 = s \<and> b 2 0 = s)"
  by (simp add: hasLine_def winLines_def lineOf_def)

lemma mkBoard_apply:
  "mkBoard [r0, r1, r2] 0 j = r0 ! nat j"
  "mkBoard [r0, r1, r2] 1 j = r1 ! nat j"
  "mkBoard [r0, r1, r2] 2 j = r2 ! nat j"
  by (simp_all add: mkBoard_def)

lemma setCell_apply: "setCell b i j c i' j' = (if i' = i \<and> j' = j then c else b i' j')"
  by (simp add: setCell_def)

lemma lineOf_setCell:
  assumes "q \<noteq> p" and "lineOf q (setCell b i j p) l"
  shows "lineOf q b l"
  using assms by (auto simp: lineOf_def list_all_iff setCell_apply split: if_splits)

lemma hasLine_setCell:
  assumes "q \<noteq> p" and "hasLine q (setCell b i j p)"
  shows "hasLine q b"
  using assms by (auto simp: hasLine_def list_ex_iff dest: lineOf_setCell)

lemma marksOnly_setCell:
  assumes "marksOnly b" and "p = PLAYER \<or> p = COMPUTER"
  shows "marksOnly (setCell b i j p)"
  using assms by (auto simp: marksOnly_def list_all_iff setCell_apply)

lemma marksOnly_emptyBoard: "marksOnly emptyBoard"
  by (simp add: marksOnly_def emptyBoard_def list_all_iff)

lemma hasLine_emptyBoard: "s \<noteq> EMPTY \<Longrightarrow> \<not> hasLine s emptyBoard"
  by (simp add: hasLine_def winLines_def lineOf_def emptyBoard_def)

lemma other_marks: "other p = PLAYER \<or> other p = COMPUTER"
  by (simp add: other_def)

lemma reachable_invariant:
  assumes "reachable b p"
  shows "marksOnly b \<and> (p = PLAYER \<or> p = COMPUTER) \<and> \<not> (hasLine PLAYER b \<and> hasLine COMPUTER b)"
  using assms
proof (induction rule: reachable.induct)
  case start
  show ?case
    using hasLine_emptyBoard [of PLAYER] by (simp add: marksOnly_emptyBoard marks_distinct)
next
  case (move b p i j b')
  then have mb: "marksOnly b" and p: "p = PLAYER \<or> p = COMPUTER"
    by simp_all
  from move.hyps(2) mb have none: "\<not> hasLine PLAYER b" "\<not> hasLine COMPUTER b"
    using checkWinner_cases [OF mb] no_line_iff [OF mb] by simp_all
  have m': "marksOnly b'"
    unfolding move.hyps(6) by (rule marksOnly_setCell [OF mb p])
  have "\<not> (hasLine PLAYER b' \<and> hasLine COMPUTER b')"
  proof
    assume both: "hasLine PLAYER b' \<and> hasLine COMPUTER b'"
    from p show False
    proof
      assume "p = PLAYER"
      with both have "hasLine COMPUTER (setCell b i j PLAYER)"
        by (simp add: move.hyps(6))
      from hasLine_setCell [OF _ this] none show False
        by (simp add: marks_distinct)
    next
      assume "p = COMPUTER"
      with both have "hasLine PLAYER (setCell b i j COMPUTER)"
        by (simp add: move.hyps(6))
      from hasLine_setCell [OF _ this] none show False
        by (simp add: marks_distinct)
    qed
  qed
  with m' p show ?case
    using other_marks [of p] by auto
qed

subsection \<open>The outcome function\<close>

text \<open>
  Claim C4, as amended. On a board whose cells hold only blanks, X and O,
  \<^verbatim>\<open>checkWinner\<close> returns the mark of the first complete line in its scan order (rows 0
  to 2, columns 0 to 2, main diagonal, anti-diagonal), and both versions of the function
  in the repository agree. Hence, when the two sides do not both own a complete line, it
  returns \<^verbatim>\<open>'X'\<close> exactly when X owns a line and \<^verbatim>\<open>'O'\<close> exactly when O owns one. It
  returns \<^verbatim>\<open>'D'\<close> exactly when neither side owns a line and no cell is empty, and a blank
  exactly when neither side owns a line and some cell is empty.
\<close>

theorem checkWinner_spec:
  assumes "marksOnly b"
  shows "checkWinner b =
           (case firstLineMark b of Some s \<Rightarrow> s
            | None \<Rightarrow> if countFree b = 0 then DRAW else EMPTY) \<and>
         checkWinner2 b = checkWinner b \<and>
         (\<not> (hasLine PLAYER b \<and> hasLine COMPUTER b) \<longrightarrow>
            (checkWinner b = PLAYER \<longleftrightarrow> hasLine PLAYER b) \<and>
            (checkWinner b = COMPUTER \<longleftrightarrow> hasLine COMPUTER b)) \<and>
         (checkWinner b = DRAW \<longleftrightarrow>
            \<not> hasLine PLAYER b \<and> \<not> hasLine COMPUTER b \<and> countFree b = 0) \<and>
         (checkWinner b = EMPTY \<longleftrightarrow>
            \<not> hasLine PLAYER b \<and> \<not> hasLine COMPUTER b \<and> countFree b \<noteq> 0)"
proof -
  have "checkWinner b = DRAW \<longleftrightarrow>
          \<not> hasLine PLAYER b \<and> \<not> hasLine COMPUTER b \<and> countFree b = 0"
    using checkWinner_cases [OF assms] no_line_iff [OF assms] by simp
  moreover have "checkWinner b = EMPTY \<longleftrightarrow>
          \<not> hasLine PLAYER b \<and> \<not> hasLine COMPUTER b \<and> countFree b \<noteq> 0"
    using checkWinner_cases [OF assms] no_line_iff [OF assms] by simp
  ultimately show ?thesis
    using checkWinner_single [OF assms] checkWinner_firstLine [of b] checkWinner2_eq [of b]
    by blast
qed

text \<open>
  The claim as first stated fails where both sides own a line: with X on row 0 and O on
  row 1 the scan stops at row 0 and returns \<^verbatim>\<open>'X'\<close>, although O has three in a row.
\<close>

theorem checkWinner_two_lines_counterexample:
  "marksOnly (mkBoard [''XXX'', ''OOO'', ''   '']) \<and>
   \<not> (checkWinner (mkBoard [''XXX'', ''OOO'', ''   '']) = COMPUTER \<longleftrightarrow>
      hasLine COMPUTER (mkBoard [''XXX'', ''OOO'', ''   '']))"
  by (simp add: marksOnly_def allCells_unfold checkWinner_unfold hasLine_unfold mkBoard_apply
      PLAYER_def COMPUTER_def EMPTY_def)

theorem checkWinner_spec_witness:
  "marksOnly (mkBoard [''XO '', ''OX '', ''  X'']) \<and>
   \<not> (hasLine PLAYER (mkBoard [''XO '', ''OX '', ''  X'']) \<and>
      hasLine COMPUTER (mkBoard [''XO '', ''OX '', ''  X''])) \<and>
   checkWinner (mkBoard [''XO '', ''OX '', ''  X'']) = PLAYER \<and>
   hasLine PLAYER (mkBoard [''XO '', ''OX '', ''  X''])"
proof -
  let ?b = "mkBoard [''XO '', ''OX '', ''  X'']"
  have m: "marksOnly ?b"
    by (simp add: marksOnly_def allCells_unfold mkBoard_apply PLAYER_def COMPUTER_def EMPTY_def)
  have x: "hasLine PLAYER ?b"
    by (simp add: hasLine_unfold mkBoard_apply PLAYER_def)
  have o: "\<not> hasLine COMPUTER ?b"
    by (simp add: hasLine_unfold mkBoard_apply COMPUTER_def)
  from checkWinner_spec [OF m] x o m show ?thesis
    by blast
qed

text \<open>
  Claim C8. On every position that the game loop can reach (marks placed in turn
  starting with X, each onto an empty cell, no move after \<^verbatim>\<open>checkWinner\<close> has returned
  a non-blank), the two sides never both own a complete line, \<^verbatim>\<open>checkWinner\<close> returns
  one of the four outcomes blank (ongoing), \<^verbatim>\<open>'X'\<close>, \<^verbatim>\<open>'O'\<close>, \<^verbatim>\<open>'D'\<close>, and it returns a
  side's mark exactly when that side owns a line.
\<close>

theorem reachable_one_outcome:
  assumes "reachable b p"
  shows "\<not> (hasLine PLAYER b \<and> hasLine COMPUTER b) \<and>
         checkWinner b \<in> {EMPTY, PLAYER, COMPUTER, DRAW} \<and>
         (checkWinner b = PLAYER \<longleftrightarrow> hasLine PLAYER b) \<and>
         (checkWinner b = COMPUTER \<longleftrightarrow> hasLine COMPUTER b)"
proof -
  from reachable_invariant [OF assms]
  have m: "marksOnly b" and n: "\<not> (hasLine PLAYER b \<and> hasLine COMPUTER b)"
    by simp_all
  have "checkWinner b \<in> {EMPTY, PLAYER, COMPUTER, DRAW}"
  proof (cases "firstLineMark b")
    case None
    then show ?thesis by (simp add: checkWinner_firstLine)
  next
    case (Some s)
    with firstLineMark_marks [OF m Some] show ?thesis
      by (auto simp: checkWinner_firstLine)
  qed
  with n checkWinner_single [OF m n] show ?thesis
    by blast
qed

theorem reachable_one_outcome_witness:
  "reachable (setCell emptyBoard 1 1 PLAYER) COMPUTER \<and>
   \<not> (hasLine PLAYER (setCell emptyBoard 1 1 PLAYER) \<and>
      hasLine COMPUTER (setCell emptyBoard 1 1 PLAYER)) \<and>
   checkWinner (setCell emptyBoard 1 1 PLAYER) \<in> {EMPTY, PLAYER, COMPUTER, DRAW}"
proof -
  let ?b = "setCell emptyBoard 1 1 PLAYER"
  have f: "freeCells emptyBoard = allCells"
    by (simp add: freeCells_def emptyBoard_def)
  have w0: "checkWinner emptyBoard = EMPTY"
    by (simp add: checkWinner_unfold countFree_def f allCells_unfold) (simp add: emptyBoard_def)
  have c0: "0 < countFree emptyBoard"
    by (simp add: countFree_def f allCells_unfold)
  have "(1, 1) \<in> set allCells" "emptyBoard 1 1 = EMPTY"
    by (simp_all add: allCells_unfold emptyBoard_def)
  from reachable.move [OF reachable.start w0 c0 this refl]
  have r: "reachable ?b (if checkWinner ?b = EMPTY then other PLAYER else PLAYER)" .
  have "freeCells ?b = [(0, 0), (0, 1), (0, 2), (1, 0), (1, 2), (2, 0), (2, 1), (2, 2)]"
    by (simp add: freeCells_def allCells_unfold setCell_apply emptyBoard_def marks_distinct)
  then have "checkWinner ?b = EMPTY"
    by (simp add: checkWinner_unfold countFree_def setCell_apply emptyBoard_def marks_distinct)
  with r have "reachable ?b COMPUTER"
    by (simp add: other_def)
  from this reachable_one_outcome [OF this] show ?thesis
    by blast
qed

section \<open>Minimax search\<close>

subsection \<open>The search as it is written\<close>

text \<open>
  \<^verbatim>\<open>int minimax(char currentBoard[3][3], int depth, bool isMaximizing, int alpha, int beta)\<close>
  works on the caller's array: it writes a mark into a cell, calls itself on the same
  array and blanks the cell again. The model passes the array in and returns it with the
  score, so that what a call leaves in the array is part of its result, and the loop goes
  on with the array as the inner call left it.

  The first argument bounds the depth of the recursion (the number of nested calls);
  \<open>None\<close> is returned when the bound is used up. A call needs one level more than there
  are empty cells, so ten levels are enough on every board.

  The two nested \<^verbatim>\<open>for\<close> loops over \<^verbatim>\<open>i\<close> and \<^verbatim>\<open>j\<close> are one loop over the cells in
  row-major order; \<^verbatim>\<open>return bestScore\<close> inside them leaves both. Scores are \<^verbatim>\<open>int\<close>
  values between \<^verbatim>\<open>INT_MIN\<close> and \<^verbatim>\<open>INT_MAX\<close> that are only compared, never added, so
  no arithmetic can overflow; \<^verbatim>\<open>depth + 1\<close> stays below ten.
\<close>

function (sequential) minimax :: "nat \<Rightarrow> board \<Rightarrow> int \<Rightarrow> bool \<Rightarrow> int \<Rightarrow> int \<Rightarrow> (int \<times> board) option"
  and maxLoop :: "nat \<Rightarrow> Move list \<Rightarrow> board \<Rightarrow> int \<Rightarrow> int \<Rightarrow> int \<Rightarrow> int \<Rightarrow> (int \<times> board) option"
  and minLoop :: "nat \<Rightarrow> Move list \<Rightarrow> board \<Rightarrow> int \<Rightarrow> int \<Rightarrow> int \<Rightarrow> int \<Rightarrow> (int \<times> board) option"
where
  "minimax 0 currentBoard depth isMaximizing alpha beta = None"
| "minimax (Suc fuel) currentBoard depth isMaximizing alpha beta =
     (let winner = checkWinner currentBoard in
      if winner = COMPUTER then Some (10, currentBoard)
      else if winner = PLAYER then Some (- 10, currentBoard)
      else if winner = DRAW then Some (0, currentBoard)
      else if isMaximizing then maxLoop fuel allCells currentBoard depth INT_MIN alpha beta
      else minLoop fuel allCells currentBoard depth INT_MAX alpha beta)"
| "maxLoop fuel [] currentBoard depth bestScore alpha beta = Some (bestScore, currentBoard)"
| "maxLoop fuel ((i, j) # cells) currentBoard depth bestScore alpha beta =
     (if currentBoard i j = EMPTY then
        (case minimax fuel (setCell currentBoard i j COMPUTER) (depth + 1) False alpha beta of
           None \<Rightarrow> None
         | Some (score, board1) \<Rightarrow>
            (let board2 = setCell board1 i j EMPTY;
                 bestScore' = max bestScore score;
                 alpha' = max alpha score
             in if beta \<le> alpha' then Some (bestScore', board2)
                else maxLoop fuel cells board2 depth bestScore' alpha' beta))
      else maxLoop fuel cells currentBoard depth bestScore alpha beta)"
| "minLoop fuel [] currentBoard depth bestScore alpha beta = Some (bestScore, currentBoard)"
| "minLoop fuel ((i, j) # cells) currentBoard depth bestScore alpha beta =
     (if currentBoard i j = EMPTY then
        (case minimax fuel (setCell currentBoard i j PLAYER) (depth + 1) True alpha beta of
           None \<Rightarrow> None
         | Some (score, board1) \<Rightarrow>
            (let board2 = setCell board1 i j EMPTY;
                 bestScore' = min bestScore score;
                 beta' = min beta score
             in if beta' \<le> alpha then Some (bestScore', board2)
                else minLoop fuel cells board2 depth bestScore' alpha beta'))
      else minLoop fuel cells currentBoard depth bestScore alpha beta)"

  by pat_completeness auto
termination
  by (relation "inv_image (less_than <*lex*> less_than)
        (\<lambda>x. case x of
           Inl (fuel, b, d, m, al, be) \<Rightarrow> (fuel, 0)
         | Inr (Inl (fuel, cells, b, d, bs, al, be)) \<Rightarrow> (fuel, Suc (length cells))
         | Inr (Inr (fuel, cells, b, d, bs, al, be)) \<Rightarrow> (fuel, Suc (length cells)))")
     auto


text \<open>
  Plain minimax, the reference of the specification: the same function with the two
  \<^verbatim>\<open>if (beta <= alpha) return bestScore;\<close> statements removed, and nothing else changed.
\<close>

function (sequential) minimax_plain :: "nat \<Rightarrow> board \<Rightarrow> int \<Rightarrow> bool \<Rightarrow> int \<Rightarrow> int \<Rightarrow> (int \<times> board) option"
  and maxLoop_plain :: "nat \<Rightarrow> Move list \<Rightarrow> board \<Rightarrow> int \<Rightarrow> int \<Rightarrow> int \<Rightarrow> int \<Rightarrow> (int \<times> board) option"
  and minLoop_plain :: "nat \<Rightarrow> Move list \<Rightarrow> board \<Rightarrow> int \<Rightarrow> int \<Rightarrow> int \<Rightarrow> int \<Rightarrow> (int \<times> board) option"
where
  "minimax_plain 0 currentBoard depth isMaximizing alpha beta = None"
| "minimax_plain (Suc fuel) currentBoard depth isMaximizing alpha beta =
     (let winner = checkWinner currentBoard in
      if winner = COMPUTER then Some (10, currentBoard)
      else if winner = PLAYER then Some (- 10, currentBoard)
      else if winner = DRAW then Some (0, currentBoard)
      else if isMaximizing then maxLoop_plain fuel allCells currentBoard depth INT_MIN alpha beta
      else minLoop_plain fuel allCells currentBoard depth INT_MAX alpha beta)"
| "maxLoop_plain fuel [] currentBoard depth bestScore alpha beta = Some (bestScore, currentBoard)"
| "maxLoop_plain fuel ((i, j) # cells) currentBoard depth bestScore alpha beta =
     (if currentBoard i j = EMPTY then
        (case minimax_plain fuel (setCell currentBoard i j COMPUTER) (depth + 1) False alpha beta of
           None \<Rightarrow> None
         | Some (score, board1) \<Rightarrow>
            (let board2 = setCell board1 i j EMPTY;
                 bestScore' = max bestScore score;
                 alpha' = max alpha score
             in maxLoop_plain fuel cells board2 depth bestScore' alpha' beta))
      else maxLoop_plain fuel cells currentBoard depth bestScore alpha beta)"
| "minLoop_plain fuel [] currentBoard depth bestScore alpha beta = Some (bestScore, currentBoard)"
| "minLoop_plain fuel ((i, j) # cells) currentBoard depth bestScore alpha beta =
     (if currentBoard i j = EMPTY then
        (case minimax_plain fuel (setCell currentBoard i j PLAYER) (depth + 1) True alpha beta of
           None \<Rightarrow> None
         | Some (score, board1) \<Rightarrow>
            (let board2 = setCell board1 i j EMPTY;
                 bestScore' = min bestScore score;
                 beta' = min beta score
             in minLoop_plain fuel cells board2 depth bestScore' alpha beta'))
      else minLoop_plain fuel cells currentBoard depth bestScore alpha beta)"
  by pat_completeness auto
termination
  by (relation "inv_image (less_than <*lex*> less_than)
        (\<lambda>x. case x of
           Inl (fuel, b, d, m, al, be) \<Rightarrow> (fuel, 0)
         | Inr (Inl (fuel, cells, b, d, bs, al, be)) \<Rightarrow> (fuel, Suc (length cells))
         | Inr (Inr (fuel, cells, b, d, bs, al, be)) \<Rightarrow> (fuel, Suc (length cells)))")
     auto

text \<open>
  The globals of the program: the live board and the two move histories.
\<close>

record game =
  board :: board
  playerMoves :: "Move list"
  computerMoves :: "Move list"

text \<open>
  The two loops of \<^verbatim>\<open>minimaxMove\<close>: every empty cell is tried with the computer's mark,
  scored by \<^verbatim>\<open>minimax(board, 0, false, INT_MIN, INT_MAX)\<close> and blanked again; a strictly
  better score replaces the best move. The start values are \<^verbatim>\<open>INT_MIN\<close> and the
  sentinel \<^verbatim>\<open>(-1, -1)\<close>.
\<close>

fun minimaxScan :: "nat \<Rightarrow> Move list \<Rightarrow> board \<Rightarrow> int \<Rightarrow> Move \<Rightarrow> (int \<times> Move \<times> board) option" where
  "minimaxScan fuel [] b bestScore bestMove = Some (bestScore, bestMove, b)"
| "minimaxScan fuel ((i, j) # cells) b bestScore bestMove =
     (if b i j = EMPTY then
        (case minimax fuel (setCell b i j COMPUTER) 0 False INT_MIN INT_MAX of
           None \<Rightarrow> None
         | Some (score, board1) \<Rightarrow>
            (let board2 = setCell board1 i j EMPTY
             in if score > bestScore then minimaxScan fuel cells board2 score (i, j)
                else minimaxScan fuel cells board2 bestScore bestMove))
      else minimaxScan fuel cells b bestScore bestMove)"

text \<open>
  \<^verbatim>\<open>minimaxMove\<close> then plays the best move on the live board and appends it to the
  computer's history, unless the sentinel came back.
\<close>

definition minimaxMove :: "nat \<Rightarrow> game \<Rightarrow> game option" where
  "minimaxMove fuel g =
     (case minimaxScan fuel allCells (board g) INT_MIN (- 1, - 1) of
        None \<Rightarrow> None
      | Some (bestScore, bestMove, b) \<Rightarrow>
         if fst bestMove \<noteq> - 1
         then Some (g\<lparr>board := setCell b (fst bestMove) (snd bestMove) COMPUTER,
                       computerMoves := computerMoves g @ [bestMove]\<rparr>)
         else Some (g\<lparr>board := b\<rparr>))"

text \<open>The same driver over plain minimax.\<close>

fun minimaxScan_plain :: "nat \<Rightarrow> Move list \<Rightarrow> board \<Rightarrow> int \<Rightarrow> Move \<Rightarrow> (int \<times> Move \<times> board) option" where
  "minimaxScan_plain fuel [] b bestScore bestMove = Some (bestScore, bestMove, b)"
| "minimaxScan_plain fuel ((i, j) # cells) b bestScore bestMove =
     (if b i j = EMPTY then
        (case minimax_plain fuel (setCell b i j COMPUTER) 0 False INT_MIN INT_MAX of
           None \<Rightarrow> None
         | Some (score, board1) \<Rightarrow>
            (let board2 = setCell board1 i j EMPTY
             in if score > bestScore then minimaxScan_plain fuel cells board2 score (i, j)
                else minimaxScan_plain fuel cells board2 bestScore bestMove))
      else minimaxScan_plain fuel cells b bestScore bestMove)"

subsection \<open>The value of a position\<close>

text \<open>
  The game-theoretic value of a position for the automated side, by backward induction:
  10 when O has won, -10 when X has won, 0 for a draw, and otherwise the maximum
  (O to move) or the minimum (X to move) of the values of the positions one move away.
\<close>

function gameValue :: "board \<Rightarrow> bool \<Rightarrow> int" where
  "gameValue b isMaximizing =
     (let winner = checkWinner b in
      if winner = COMPUTER then 10
      else if winner = PLAYER then - 10
      else if winner = DRAW then 0
      else if isMaximizing
        then fold max (map (\<lambda>c. gameValue (setCell b (fst c) (snd c) COMPUTER) False) (freeCells b)) INT_MIN
        else fold min (map (\<lambda>c. gameValue (setCell b (fst c) (snd c) PLAYER) True) (freeCells b)) INT_MAX)"
  by pat_completeness auto
termination
proof (relation "measure (\<lambda>(b, m). countFree b)")
  have less: "countFree (setCell b (fst c) (snd c) s) < countFree b"
    if "c \<in> set (freeCells b)" and "s \<noteq> EMPTY" for b c s
  proof -
    have "freeCells (setCell b (fst c) (snd c) s) = filter (\<lambda>p. p \<noteq> c) (freeCells b)"
      using that(2) by (auto simp: freeCells_def setCell_apply prod_eq_iff intro!: filter_cong)
    moreover have "length (filter (\<lambda>p. p \<noteq> c) (freeCells b)) < length (freeCells b)"
      using that(1) by (intro length_filter_less [of c]) simp_all
    ultimately show ?thesis
      by (simp add: countFree_def)
  qed
  show "wf (measure (\<lambda>(b, m). countFree b))"
    by simp
  show "((setCell b (fst c) (snd c) COMPUTER, False), b, m) \<in> measure (\<lambda>(b, m). countFree b)"
    if "c \<in> set (freeCells b)" for b m c
    using less [OF that, of COMPUTER] by (simp add: COMPUTER_def EMPTY_def)
  show "((setCell b (fst c) (snd c) PLAYER, True), b, m) \<in> measure (\<lambda>(b, m). countFree b)"
    if "c \<in> set (freeCells b)" for b m c
    using less [OF that, of PLAYER] by (simp add: PLAYER_def EMPTY_def)
qed

declare gameValue.simps [simp del]

text \<open>
  The automated side can hold at least a draw from a position (with O to move when the
  flag is set): the game is over and not lost, or O is to move and has a move to a
  position it can hold, or X is to move and O can hold every position X can move to.
\<close>

inductive secures :: "board \<Rightarrow> bool \<Rightarrow> bool" where
  over: "checkWinner b = COMPUTER \<or> checkWinner b = DRAW \<Longrightarrow> secures b m"
| computer_moves: "checkWinner b = EMPTY \<Longrightarrow> c \<in> set (freeCells b) \<Longrightarrow>
     secures (setCell b (fst c) (snd c) COMPUTER) False \<Longrightarrow> secures b True"
| player_moves: "checkWinner b = EMPTY \<Longrightarrow>
     (\<forall>c \<in> set (freeCells b). secures (setCell b (fst c) (snd c) PLAYER) True) \<Longrightarrow>
     secures b False"

subsection \<open>Auxiliary facts\<close>

lemma fold_max_le: "fold max xs (a::int) \<le> r \<longleftrightarrow> a \<le> r \<and> (\<forall>x\<in>set xs. x \<le> r)"
proof (induction xs arbitrary: a)
  case (Cons x xs)
  show ?case unfolding fold_simps Cons.IH by (simp only: max.bounded_iff list.set) blast
qed simp

lemma le_fold_max: "r \<le> fold max xs (a::int) \<longleftrightarrow> r \<le> a \<or> (\<exists>x\<in>set xs. r \<le> x)"
proof (induction xs arbitrary: a)
  case (Cons x xs)
  show ?case unfolding fold_simps Cons.IH by (simp only: le_max_iff_disj list.set) blast
qed simp

lemma fold_min_le: "fold min xs (a::int) \<le> r \<longleftrightarrow> a \<le> r \<or> (\<exists>x\<in>set xs. x \<le> r)"
proof (induction xs arbitrary: a)
  case (Cons x xs)
  show ?case unfolding fold_simps Cons.IH by (simp only: min_le_iff_disj list.set) blast
qed simp

lemma le_fold_min: "r \<le> fold min xs (a::int) \<longleftrightarrow> r \<le> a \<and> (\<forall>x\<in>set xs. r \<le> x)"
proof (induction xs arbitrary: a)
  case (Cons x xs)
  show ?case unfolding fold_simps Cons.IH by (simp only: min.bounded_iff list.set) blast
qed simp

lemma freeCells_setCell:
  assumes "s \<noteq> EMPTY"
  shows "freeCells (setCell b i j s) = filter (\<lambda>p. p \<noteq> (i, j)) (freeCells b)"
  using assms by (auto simp: freeCells_def setCell_apply intro!: filter_cong)

lemma countFree_setCell:
  assumes "(i, j) \<in> set allCells" and "b i j = EMPTY" and "s \<noteq> EMPTY"
  shows "countFree (setCell b i j s) < countFree b"
proof -
  from assms(1,2) have "(i, j) \<in> set (freeCells b)"
    by (simp add: freeCells_def)
  then have "length (filter (\<lambda>p. p \<noteq> (i, j)) (freeCells b)) < length (freeCells b)"
    by (intro length_filter_less [of "(i, j)"]) simp_all
  then show ?thesis
    by (simp add: countFree_def freeCells_setCell [OF assms(3)])
qed

lemma setCell_restore: "b i j = EMPTY \<Longrightarrow> setCell (setCell b i j s) i j EMPTY = b"
  by (rule ext, rule ext) (simp add: setCell_apply)

lemma countFree_le_9: "countFree b \<le> 9"
proof -
  have "length (freeCells b) \<le> length allCells"
    unfolding freeCells_def by (rule length_filter_le)
  then show ?thesis
    by (simp add: countFree_def allCells_unfold)
qed

subsection \<open>The search leaves the board as it found it\<close>

lemma maxLoop_frame:
  assumes "\<And>i j d al be. (i, j) \<in> set cells \<Longrightarrow> b i j = EMPTY \<Longrightarrow>
             \<exists>r. minimax fuel (setCell b i j COMPUTER) d False al be = Some (r, setCell b i j COMPUTER)"
  shows "\<exists>r. maxLoop fuel cells b depth best alpha beta = Some (r, b)"
  using assms
proof (induction cells arbitrary: best alpha)
  case Nil
  show ?case by simp
next
  case (Cons c cells)
  obtain i j where c: "c = (i, j)" by (cases c)
  show ?case
  proof (cases "b i j = EMPTY")
    case True
    from Cons.prems [of i j "depth + 1" alpha beta] c True
    obtain r where r: "minimax fuel (setCell b i j COMPUTER) (depth + 1) False alpha beta
        = Some (r, setCell b i j COMPUTER)"
      by auto
    from Cons.IH [of "max best r" "max alpha r"] Cons.prems
    obtain r' where "maxLoop fuel cells b depth (max best r) (max alpha r) beta = Some (r', b)"
      by auto
    with r True c show ?thesis
      by (simp add: setCell_restore Let_def)
  next
    case False
    from Cons.IH [of best alpha] Cons.prems
    obtain r' where "maxLoop fuel cells b depth best alpha beta = Some (r', b)"
      by auto
    with False c show ?thesis
      by simp
  qed
qed

lemma minLoop_frame:
  assumes "\<And>i j d al be. (i, j) \<in> set cells \<Longrightarrow> b i j = EMPTY \<Longrightarrow>
             \<exists>r. minimax fuel (setCell b i j PLAYER) d True al be = Some (r, setCell b i j PLAYER)"
  shows "\<exists>r. minLoop fuel cells b depth best alpha beta = Some (r, b)"
  using assms
proof (induction cells arbitrary: best beta)
  case Nil
  show ?case by simp
next
  case (Cons c cells)
  obtain i j where c: "c = (i, j)" by (cases c)
  show ?case
  proof (cases "b i j = EMPTY")
    case True
    from Cons.prems [of i j "depth + 1" alpha beta] c True
    obtain r where r: "minimax fuel (setCell b i j PLAYER) (depth + 1) True alpha beta
        = Some (r, setCell b i j PLAYER)"
      by auto
    from Cons.IH [of "min best r" "min beta r"] Cons.prems
    obtain r' where "minLoop fuel cells b depth (min best r) alpha (min beta r) = Some (r', b)"
      by auto
    with r True c show ?thesis
      by (simp add: setCell_restore Let_def)
  next
    case False
    from Cons.IH [of best beta] Cons.prems
    obtain r' where "minLoop fuel cells b depth best alpha beta = Some (r', b)"
      by auto
    with False c show ?thesis
      by simp
  qed
qed

lemma minimax_frame:
  "countFree b < fuel \<Longrightarrow> \<exists>r. minimax fuel b depth isMax alpha beta = Some (r, b)"
proof (induction fuel arbitrary: b depth isMax alpha beta)
  case 0
  then show ?case by simp
next
  case (Suc fuel)
  have sub: "\<exists>r. minimax fuel (setCell b i j s) d m al be = Some (r, setCell b i j s)"
    if "(i, j) \<in> set allCells" "b i j = EMPTY" "s \<noteq> EMPTY" for i j s d m al be
  proof -
    from countFree_setCell [of i j b s] that Suc.prems have "countFree (setCell b i j s) < fuel"
      by simp
    then show ?thesis by (rule Suc.IH)
  qed
  have mx: "\<exists>r. maxLoop fuel allCells b depth INT_MIN alpha beta = Some (r, b)"
    by (rule maxLoop_frame) (rule sub, simp_all add: marks_distinct)
  have mn: "\<exists>r. minLoop fuel allCells b depth INT_MAX alpha beta = Some (r, b)"
    by (rule minLoop_frame) (rule sub, simp_all add: marks_distinct)
  show ?case
    using mx mn by (simp add: Let_def)
qed

subsection \<open>Plain minimax computes the value of the position\<close>

lemma gameValue_over:
  "checkWinner b = COMPUTER \<Longrightarrow> gameValue b m = 10"
  "checkWinner b = PLAYER \<Longrightarrow> gameValue b m = - 10"
  "checkWinner b = DRAW \<Longrightarrow> gameValue b m = 0"
  by (simp_all add: gameValue.simps [of b m] marks_distinct)

lemma gameValue_max:
  assumes "checkWinner b \<noteq> COMPUTER" "checkWinner b \<noteq> PLAYER" "checkWinner b \<noteq> DRAW"
  shows "gameValue b True =
    fold max (map (\<lambda>c. gameValue (setCell b (fst c) (snd c) COMPUTER) False) (freeCells b)) INT_MIN"
  using assms by (simp add: gameValue.simps [of b True])

lemma gameValue_min:
  assumes "checkWinner b \<noteq> COMPUTER" "checkWinner b \<noteq> PLAYER" "checkWinner b \<noteq> DRAW"
  shows "gameValue b False =
    fold min (map (\<lambda>c. gameValue (setCell b (fst c) (snd c) PLAYER) True) (freeCells b)) INT_MAX"
  using assms by (simp add: gameValue.simps [of b False])

lemma maxLoop_plain_val:
  assumes "\<And>i j d al be. (i, j) \<in> set cells \<Longrightarrow> b i j = EMPTY \<Longrightarrow>
             minimax_plain fuel (setCell b i j COMPUTER) d False al be
               = Some (gameValue (setCell b i j COMPUTER) False, setCell b i j COMPUTER)"
  shows "maxLoop_plain fuel cells b depth best alpha beta =
           Some (fold max (map (\<lambda>c. gameValue (setCell b (fst c) (snd c) COMPUTER) False)
                   (filter (\<lambda>(i, j). b i j = EMPTY) cells)) best, b)"
  using assms
proof (induction cells arbitrary: best alpha)
  case Nil
  show ?case by simp
next
  case (Cons c cells)
  obtain i j where c: "c = (i, j)" by (cases c)
  have ih: "maxLoop_plain fuel cells b depth best' alpha' beta =
           Some (fold max (map (\<lambda>c. gameValue (setCell b (fst c) (snd c) COMPUTER) False)
                   (filter (\<lambda>(i, j). b i j = EMPTY) cells)) best', b)" for best' alpha'
    by (rule Cons.IH) (rule Cons.prems, simp_all)
  show ?case
  proof (cases "b i j = EMPTY")
    case True
    have "minimax_plain fuel (setCell b i j COMPUTER) (depth + 1) False alpha beta
               = Some (gameValue (setCell b i j COMPUTER) False, setCell b i j COMPUTER)"
      by (rule Cons.prems) (simp_all add: c True)
    with True c show ?thesis
      by (simp add: setCell_restore Let_def ih max.commute)
  next
    case False
    with c show ?thesis
      by (simp add: ih)
  qed
qed

lemma minLoop_plain_val:
  assumes "\<And>i j d al be. (i, j) \<in> set cells \<Longrightarrow> b i j = EMPTY \<Longrightarrow>
             minimax_plain fuel (setCell b i j PLAYER) d True al be
               = Some (gameValue (setCell b i j PLAYER) True, setCell b i j PLAYER)"
  shows "minLoop_plain fuel cells b depth best alpha beta =
           Some (fold min (map (\<lambda>c. gameValue (setCell b (fst c) (snd c) PLAYER) True)
                   (filter (\<lambda>(i, j). b i j = EMPTY) cells)) best, b)"
  using assms
proof (induction cells arbitrary: best beta)
  case Nil
  show ?case by simp
next
  case (Cons c cells)
  obtain i j where c: "c = (i, j)" by (cases c)
  have ih: "minLoop_plain fuel cells b depth best' alpha beta' =
           Some (fold min (map (\<lambda>c. gameValue (setCell b (fst c) (snd c) PLAYER) True)
                   (filter (\<lambda>(i, j). b i j = EMPTY) cells)) best', b)" for best' beta'
    by (rule Cons.IH) (rule Cons.prems, simp_all)
  show ?case
  proof (cases "b i j = EMPTY")
    case True
    have "minimax_plain fuel (setCell b i j PLAYER) (depth + 1) True alpha beta
               = Some (gameValue (setCell b i j PLAYER) True, setCell b i j PLAYER)"
      by (rule Cons.prems) (simp_all add: c True)
    with True c show ?thesis
      by (simp add: setCell_restore Let_def ih min.commute)
  next
    case False
    with c show ?thesis
      by (simp add: ih)
  qed
qed

lemma minimax_plain_val:
  "countFree b < fuel \<Longrightarrow>
     minimax_plain fuel b depth isMax alpha beta = Some (gameValue b isMax, b)"
proof (induction fuel arbitrary: b depth isMax alpha beta)
  case 0
  then show ?case by simp
next
  case (Suc fuel)
  have sub: "minimax_plain fuel (setCell b i j s) d m al be
      = Some (gameValue (setCell b i j s) m, setCell b i j s)"
    if "(i, j) \<in> set allCells" "b i j = EMPTY" "s \<noteq> EMPTY" for i j s d m al be
  proof -
    from countFree_setCell [of i j b s] that Suc.prems have "countFree (setCell b i j s) < fuel"
      by simp
    then show ?thesis by (rule Suc.IH)
  qed
  have mx: "maxLoop_plain fuel allCells b depth INT_MIN alpha beta =
      Some (fold max (map (\<lambda>c. gameValue (setCell b (fst c) (snd c) COMPUTER) False)
                   (freeCells b)) INT_MIN, b)"
    unfolding freeCells_def
    by (rule maxLoop_plain_val) (rule sub, simp_all add: marks_distinct)
  have mn: "minLoop_plain fuel allCells b depth INT_MAX alpha beta =
      Some (fold min (map (\<lambda>c. gameValue (setCell b (fst c) (snd c) PLAYER) True)
                   (freeCells b)) INT_MAX, b)"
    unfolding freeCells_def
    by (rule minLoop_plain_val) (rule sub, simp_all add: marks_distinct)
  show ?case
    using mx mn by (simp add: Let_def gameValue.simps [of b isMax])
qed

subsection \<open>Alpha-beta pruning is fail-soft\<close>

text \<open>
  What a search with the window \<open>(alpha, beta)\<close> promises about the value \<open>v\<close> of the
  position when it returns \<open>r\<close>: a result below \<open>beta\<close> is an upper bound of the value,
  a result above \<open>alpha\<close> a lower bound, so a result strictly inside the window is exact.
\<close>

definition failSoft :: "int \<Rightarrow> int \<Rightarrow> int \<Rightarrow> int \<Rightarrow> bool" where
  "failSoft alpha beta v r = ((r < beta \<longrightarrow> v \<le> r) \<and> (alpha < r \<longrightarrow> r \<le> v))"

lemma maxLoop_ab:
  assumes sub: "\<And>i j d al. (i, j) \<in> set cells \<Longrightarrow> b i j = EMPTY \<Longrightarrow> alpha \<le> al \<Longrightarrow> al < beta \<Longrightarrow>
             \<exists>r. minimax fuel (setCell b i j COMPUTER) d False al beta = Some (r, setCell b i j COMPUTER) \<and>
                 failSoft al beta (V (i, j)) r"
    and "best \<le> alpha" and "alpha < beta"
  shows "\<exists>r. maxLoop fuel cells b depth best alpha beta = Some (r, b) \<and> best \<le> r \<and>
           (r < beta \<longrightarrow> (\<forall>c\<in>set cells. b (fst c) (snd c) = EMPTY \<longrightarrow> V c \<le> r)) \<and>
           (alpha < r \<longrightarrow> (\<exists>c\<in>set cells. b (fst c) (snd c) = EMPTY \<and> r \<le> V c))"
  using assms
proof (induction cells arbitrary: best alpha)
  case Nil
  then show ?case by simp
next
  case (Cons c cells)
  obtain i j where c: "c = (i, j)" by (cases c)
  have ih: "\<exists>r. maxLoop fuel cells b depth best' alpha' beta = Some (r, b) \<and> best' \<le> r \<and>
           (r < beta \<longrightarrow> (\<forall>c\<in>set cells. b (fst c) (snd c) = EMPTY \<longrightarrow> V c \<le> r)) \<and>
           (alpha' < r \<longrightarrow> (\<exists>c\<in>set cells. b (fst c) (snd c) = EMPTY \<and> r \<le> V c))"
    if "best' \<le> alpha'" "alpha' < beta" "alpha \<le> alpha'" for best' alpha'
  proof (rule Cons.IH [OF _ that(1,2)])
    fix i j d al
    assume "(i, j) \<in> set cells" "b i j = EMPTY" "alpha' \<le> al" "al < beta"
    with that(3) show "\<exists>r. minimax fuel (setCell b i j COMPUTER) d False al beta
        = Some (r, setCell b i j COMPUTER) \<and> failSoft al beta (V (i, j)) r"
      by (intro Cons.prems(1)) simp_all
  qed
  show ?case
  proof (cases "b i j = EMPTY")
    case False
    from ih [OF Cons.prems(2,3) order_refl] obtain r where
      r: "maxLoop fuel cells b depth best alpha beta = Some (r, b)" "best \<le> r"
        "r < beta \<longrightarrow> (\<forall>c\<in>set cells. b (fst c) (snd c) = EMPTY \<longrightarrow> V c \<le> r)"
        "alpha < r \<longrightarrow> (\<exists>c\<in>set cells. b (fst c) (snd c) = EMPTY \<and> r \<le> V c)"
      by blast
    from r(1) False c have "maxLoop fuel (c # cells) b depth best alpha beta = Some (r, b)"
      by simp
    moreover from r(3) False c
    have "r < beta \<longrightarrow> (\<forall>c\<in>set (c # cells). b (fst c) (snd c) = EMPTY \<longrightarrow> V c \<le> r)"
      by simp
    moreover from r(4)
    have "alpha < r \<longrightarrow> (\<exists>c\<in>set (c # cells). b (fst c) (snd c) = EMPTY \<and> r \<le> V c)"
      by auto
    ultimately show ?thesis using r(2) by blast
  next
    case True
    from Cons.prems(1) [where i = i and j = j and d = "depth + 1" and al = alpha]
      c True Cons.prems(3)
    obtain r1 where
      call: "minimax fuel (setCell b i j COMPUTER) (depth + 1) False alpha beta
               = Some (r1, setCell b i j COMPUTER)"
      and fs: "failSoft alpha beta (V (i, j)) r1"
      by auto
    from fs have f1: "r1 < beta \<Longrightarrow> V (i, j) \<le> r1" and f2: "alpha < r1 \<Longrightarrow> r1 \<le> V (i, j)"
      by (simp_all add: failSoft_def)
    show ?thesis
    proof (cases "beta \<le> max alpha r1")
      case cut: True
      with Cons.prems(3) have br: "beta \<le> r1"
        by (simp add: max_def split: if_splits)
      with Cons.prems(2,3) have m: "max best r1 = r1" "alpha < r1"
        by simp_all
      from call True c cut
      have "maxLoop fuel (c # cells) b depth best alpha beta = Some (max best r1, b)"
        by (simp add: setCell_restore Let_def)
      with m have res: "maxLoop fuel (c # cells) b depth best alpha beta = Some (r1, b)"
        by simp
      have "\<exists>c\<in>set (c # cells). b (fst c) (snd c) = EMPTY \<and> r1 \<le> V c"
        using f2 [OF m(2)] True c by auto
      with res br Cons.prems(2) m(2) show ?thesis
        by auto
    next
      case nocut: False
      then have lt: "max alpha r1 < beta" by linarith
      have le: "max best r1 \<le> max alpha r1"
        using Cons.prems(2) by (simp add: max_def)
      from ih [OF le lt max.cobounded1] obtain r where
        r: "maxLoop fuel cells b depth (max best r1) (max alpha r1) beta = Some (r, b)"
          "max best r1 \<le> r"
          "r < beta \<longrightarrow> (\<forall>c\<in>set cells. b (fst c) (snd c) = EMPTY \<longrightarrow> V c \<le> r)"
          "max alpha r1 < r \<longrightarrow> (\<exists>c\<in>set cells. b (fst c) (snd c) = EMPTY \<and> r \<le> V c)"
        by blast
      from r(2) have br: "best \<le> r" "r1 \<le> r"
        by simp_all
      from call True c nocut r(1)
      have res: "maxLoop fuel (c # cells) b depth best alpha beta = Some (r, b)"
        by (simp add: setCell_restore Let_def)
      have up: "r < beta \<longrightarrow> (\<forall>c\<in>set (c # cells). b (fst c) (snd c) = EMPTY \<longrightarrow> V c \<le> r)"
      proof
        assume rb: "r < beta"
        with br(2) have "r1 < beta" by simp
        from f1 [OF this] br(2) have "V (i, j) \<le> r" by simp
        with r(3) rb c show "\<forall>c\<in>set (c # cells). b (fst c) (snd c) = EMPTY \<longrightarrow> V c \<le> r"
          by simp
      qed
      have low: "alpha < r \<longrightarrow> (\<exists>c\<in>set (c # cells). b (fst c) (snd c) = EMPTY \<and> r \<le> V c)"
      proof
        assume ar: "alpha < r"
        show "\<exists>c\<in>set (c # cells). b (fst c) (snd c) = EMPTY \<and> r \<le> V c"
        proof (cases "max alpha r1 < r")
          case True
          with r(4) show ?thesis by auto
        next
          case False
          with ar have "r \<le> r1" by (simp add: max_def split: if_splits)
          with br(2) have "r = r1" by simp
          with ar f2 have "r \<le> V (i, j)" by simp
          with True c show ?thesis by simp
        qed
      qed
      from res br(1) up low show ?thesis by blast
    qed
  qed
qed

lemma minLoop_ab:
  assumes sub: "\<And>i j d be. (i, j) \<in> set cells \<Longrightarrow> b i j = EMPTY \<Longrightarrow> alpha < be \<Longrightarrow> be \<le> beta \<Longrightarrow>
             \<exists>r. minimax fuel (setCell b i j PLAYER) d True alpha be = Some (r, setCell b i j PLAYER) \<and>
                 failSoft alpha be (V (i, j)) r"
    and "beta \<le> best" and "alpha < beta"
  shows "\<exists>r. minLoop fuel cells b depth best alpha beta = Some (r, b) \<and> r \<le> best \<and>
           (alpha < r \<longrightarrow> (\<forall>c\<in>set cells. b (fst c) (snd c) = EMPTY \<longrightarrow> r \<le> V c)) \<and>
           (r < beta \<longrightarrow> (\<exists>c\<in>set cells. b (fst c) (snd c) = EMPTY \<and> V c \<le> r))"
  using assms
proof (induction cells arbitrary: best beta)
  case Nil
  then show ?case by simp
next
  case (Cons c cells)
  obtain i j where c: "c = (i, j)" by (cases c)
  have ih: "\<exists>r. minLoop fuel cells b depth best' alpha beta' = Some (r, b) \<and> r \<le> best' \<and>
           (alpha < r \<longrightarrow> (\<forall>c\<in>set cells. b (fst c) (snd c) = EMPTY \<longrightarrow> r \<le> V c)) \<and>
           (r < beta' \<longrightarrow> (\<exists>c\<in>set cells. b (fst c) (snd c) = EMPTY \<and> V c \<le> r))"
    if "beta' \<le> best'" "alpha < beta'" "beta' \<le> beta" for best' beta'
  proof (rule Cons.IH [OF _ that(1,2)])
    fix i j d be
    assume "(i, j) \<in> set cells" "b i j = EMPTY" "alpha < be" "be \<le> beta'"
    with that(3) show "\<exists>r. minimax fuel (setCell b i j PLAYER) d True alpha be
        = Some (r, setCell b i j PLAYER) \<and> failSoft alpha be (V (i, j)) r"
      by (intro Cons.prems(1)) simp_all
  qed
  show ?case
  proof (cases "b i j = EMPTY")
    case False
    from ih [OF Cons.prems(2,3) order_refl] obtain r where
      r: "minLoop fuel cells b depth best alpha beta = Some (r, b)" "r \<le> best"
        "alpha < r \<longrightarrow> (\<forall>c\<in>set cells. b (fst c) (snd c) = EMPTY \<longrightarrow> r \<le> V c)"
        "r < beta \<longrightarrow> (\<exists>c\<in>set cells. b (fst c) (snd c) = EMPTY \<and> V c \<le> r)"
      by blast
    from r(1) False c have "minLoop fuel (c # cells) b depth best alpha beta = Some (r, b)"
      by simp
    moreover from r(3) False c
    have "alpha < r \<longrightarrow> (\<forall>c\<in>set (c # cells). b (fst c) (snd c) = EMPTY \<longrightarrow> r \<le> V c)"
      by simp
    moreover from r(4)
    have "r < beta \<longrightarrow> (\<exists>c\<in>set (c # cells). b (fst c) (snd c) = EMPTY \<and> V c \<le> r)"
      by auto
    ultimately show ?thesis using r(2) by blast
  next
    case True
    from Cons.prems(1) [where i = i and j = j and d = "depth + 1" and be = beta]
      c True Cons.prems(3)
    obtain r1 where
      call: "minimax fuel (setCell b i j PLAYER) (depth + 1) True alpha beta
               = Some (r1, setCell b i j PLAYER)"
      and fs: "failSoft alpha beta (V (i, j)) r1"
      by auto
    from fs have f1: "r1 < beta \<Longrightarrow> V (i, j) \<le> r1" and f2: "alpha < r1 \<Longrightarrow> r1 \<le> V (i, j)"
      by (simp_all add: failSoft_def)
    show ?thesis
    proof (cases "min beta r1 \<le> alpha")
      case cut: True
      with Cons.prems(3) have br: "r1 \<le> alpha"
        by (simp add: min_def split: if_splits)
      with Cons.prems(2,3) have m: "min best r1 = r1" "r1 < beta"
        by simp_all
      from call True c cut
      have "minLoop fuel (c # cells) b depth best alpha beta = Some (min best r1, b)"
        by (simp add: setCell_restore Let_def)
      with m have res: "minLoop fuel (c # cells) b depth best alpha beta = Some (r1, b)"
        by simp
      have "\<exists>c\<in>set (c # cells). b (fst c) (snd c) = EMPTY \<and> V c \<le> r1"
        using f1 [OF m(2)] True c by auto
      with res br Cons.prems(2) m(2) show ?thesis
        by auto
    next
      case nocut: False
      then have lt: "alpha < min beta r1" by linarith
      have le: "min beta r1 \<le> min best r1"
        using Cons.prems(2) by (simp add: min_def)
      from ih [OF le lt min.cobounded1] obtain r where
        r: "minLoop fuel cells b depth (min best r1) alpha (min beta r1) = Some (r, b)"
          "r \<le> min best r1"
          "alpha < r \<longrightarrow> (\<forall>c\<in>set cells. b (fst c) (snd c) = EMPTY \<longrightarrow> r \<le> V c)"
          "r < min beta r1 \<longrightarrow> (\<exists>c\<in>set cells. b (fst c) (snd c) = EMPTY \<and> V c \<le> r)"
        by blast
      from r(2) have br: "r \<le> best" "r \<le> r1"
        by simp_all
      from call True c nocut r(1)
      have res: "minLoop fuel (c # cells) b depth best alpha beta = Some (r, b)"
        by (simp add: setCell_restore Let_def)
      have low: "alpha < r \<longrightarrow> (\<forall>c\<in>set (c # cells). b (fst c) (snd c) = EMPTY \<longrightarrow> r \<le> V c)"
      proof
        assume ar: "alpha < r"
        with br(2) have "alpha < r1" by simp
        from f2 [OF this] br(2) have "r \<le> V (i, j)" by simp
        with r(3) ar c show "\<forall>c\<in>set (c # cells). b (fst c) (snd c) = EMPTY \<longrightarrow> r \<le> V c"
          by simp
      qed
      have up: "r < beta \<longrightarrow> (\<exists>c\<in>set (c # cells). b (fst c) (snd c) = EMPTY \<and> V c \<le> r)"
      proof
        assume rb: "r < beta"
        show "\<exists>c\<in>set (c # cells). b (fst c) (snd c) = EMPTY \<and> V c \<le> r"
        proof (cases "r < min beta r1")
          case True
          with r(4) show ?thesis by auto
        next
          case False
          with rb have "r1 \<le> r" by (simp add: min_def split: if_splits)
          with br(2) have "r = r1" by simp
          with rb f1 have "V (i, j) \<le> r" by simp
          with True c show ?thesis by simp
        qed
      qed
      from res br(1) up low show ?thesis by blast
    qed
  qed
qed

lemma freeCells_set:
  "c \<in> set (freeCells b) \<longleftrightarrow> c \<in> set allCells \<and> b (fst c) (snd c) = EMPTY"
  by (auto simp: freeCells_def)

lemma gameValue_bounds: "INT_MIN \<le> gameValue b m \<and> gameValue b m \<le> INT_MAX"
proof (induction b m rule: gameValue.induct)
  case (1 b isMaximizing)
  show ?case
  proof (cases "checkWinner b = COMPUTER \<or> checkWinner b = PLAYER \<or> checkWinner b = DRAW")
    case True
    then show ?thesis
      using gameValue_over [of b isMaximizing] by (auto simp: INT_MIN_def INT_MAX_def)
  next
    case False
    then have nt: "checkWinner b \<noteq> COMPUTER" "checkWinner b \<noteq> PLAYER" "checkWinner b \<noteq> DRAW"
      by simp_all
    show ?thesis
    proof (cases isMaximizing)
      case True
      have "gameValue (setCell b (fst c) (snd c) COMPUTER) False \<le> INT_MAX"
        if "c \<in> set (freeCells b)" for c
        using "1.IH"(1) [OF refl nt True that] by simp
      moreover from True have "gameValue b isMaximizing = fold max
          (map (\<lambda>c. gameValue (setCell b (fst c) (snd c) COMPUTER) False) (freeCells b)) INT_MIN"
        using gameValue_max [OF nt] by simp
      ultimately show ?thesis
        by (simp add: fold_max_le le_fold_max INT_MIN_def INT_MAX_def)
    next
      case False
      have "INT_MIN \<le> gameValue (setCell b (fst c) (snd c) PLAYER) True"
        if "c \<in> set (freeCells b)" for c
        using "1.IH"(2) [OF refl nt False that] by simp
      moreover from False have "gameValue b isMaximizing = fold min
          (map (\<lambda>c. gameValue (setCell b (fst c) (snd c) PLAYER) True) (freeCells b)) INT_MAX"
        using gameValue_min [OF nt] by simp
      ultimately show ?thesis
        by (simp add: fold_min_le le_fold_min INT_MIN_def INT_MAX_def)
    qed
  qed
qed

lemma minimax_ab:
  "countFree b < fuel \<Longrightarrow> INT_MIN \<le> alpha \<Longrightarrow> alpha < beta \<Longrightarrow> beta \<le> INT_MAX \<Longrightarrow>
     \<exists>r. minimax fuel b depth isMax alpha beta = Some (r, b) \<and>
         failSoft alpha beta (gameValue b isMax) r"
proof (induction fuel arbitrary: b depth isMax alpha beta)
  case 0
  then show ?case by simp
next
  case (Suc fuel)
  show ?case
  proof (cases "checkWinner b = COMPUTER \<or> checkWinner b = PLAYER \<or> checkWinner b = DRAW")
    case True
    then show ?thesis
      using gameValue_over [of b isMax] by (auto simp: failSoft_def Let_def marks_distinct)
  next
    case False
    then have nt: "checkWinner b \<noteq> COMPUTER" "checkWinner b \<noteq> PLAYER" "checkWinner b \<noteq> DRAW"
      by simp_all
    have sub: "\<exists>r. minimax fuel (setCell b i j s) d m al be = Some (r, setCell b i j s) \<and>
                 failSoft al be (gameValue (setCell b i j s) m) r"
      if "(i, j) \<in> set allCells" "b i j = EMPTY" "s \<noteq> EMPTY"
        "INT_MIN \<le> al" "al < be" "be \<le> INT_MAX" for i j s d m al be
    proof -
      from countFree_setCell [of i j b s] that Suc.prems(1)
      have "countFree (setCell b i j s) < fuel"
        by simp
      from Suc.IH [OF this that(4,5,6)] show ?thesis .
    qed
    show ?thesis
    proof (cases isMax)
      case True
      let ?V = "\<lambda>c. gameValue (setCell b (fst c) (snd c) COMPUTER) False"
      have "\<exists>r. maxLoop fuel allCells b depth INT_MIN alpha beta = Some (r, b) \<and> INT_MIN \<le> r \<and>
           (r < beta \<longrightarrow> (\<forall>c\<in>set allCells. b (fst c) (snd c) = EMPTY \<longrightarrow> ?V c \<le> r)) \<and>
           (alpha < r \<longrightarrow> (\<exists>c\<in>set allCells. b (fst c) (snd c) = EMPTY \<and> r \<le> ?V c))"
      proof (rule maxLoop_ab [where V = ?V])
        fix i j d al
        assume "(i, j) \<in> set allCells" "b i j = EMPTY" "alpha \<le> al" "al < beta"
        with Suc.prems(2,4)
        show "\<exists>r. minimax fuel (setCell b i j COMPUTER) d False al beta
                 = Some (r, setCell b i j COMPUTER) \<and> failSoft al beta (?V (i, j)) r"
          using sub [of i j COMPUTER al beta d False] by (simp add: marks_distinct)
      qed (use Suc.prems in simp_all)
      then obtain r where r: "maxLoop fuel allCells b depth INT_MIN alpha beta = Some (r, b)"
        "INT_MIN \<le> r"
        "r < beta \<longrightarrow> (\<forall>c\<in>set (freeCells b). ?V c \<le> r)"
        "alpha < r \<longrightarrow> (\<exists>c\<in>set (freeCells b). r \<le> ?V c)"
        unfolding freeCells_set Ball_def Bex_def by blast
      from r(2,3,4) have "failSoft alpha beta (gameValue b True) r"
        unfolding gameValue_max [OF nt] failSoft_def
        by (simp add: fold_max_le le_fold_max)
      with r(1) nt True show ?thesis
        by (simp add: Let_def)
    next
      case False
      let ?V = "\<lambda>c. gameValue (setCell b (fst c) (snd c) PLAYER) True"
      have "\<exists>r. minLoop fuel allCells b depth INT_MAX alpha beta = Some (r, b) \<and> r \<le> INT_MAX \<and>
           (alpha < r \<longrightarrow> (\<forall>c\<in>set allCells. b (fst c) (snd c) = EMPTY \<longrightarrow> r \<le> ?V c)) \<and>
           (r < beta \<longrightarrow> (\<exists>c\<in>set allCells. b (fst c) (snd c) = EMPTY \<and> ?V c \<le> r))"
      proof (rule minLoop_ab [where V = ?V])
        fix i j d be
        assume "(i, j) \<in> set allCells" "b i j = EMPTY" "alpha < be" "be \<le> beta"
        with Suc.prems(2,4)
        show "\<exists>r. minimax fuel (setCell b i j PLAYER) d True alpha be
                 = Some (r, setCell b i j PLAYER) \<and> failSoft alpha be (?V (i, j)) r"
          using sub [of i j PLAYER alpha be d True] by (simp add: marks_distinct)
      qed (use Suc.prems in simp_all)
      then obtain r where r: "minLoop fuel allCells b depth INT_MAX alpha beta = Some (r, b)"
        "r \<le> INT_MAX"
        "alpha < r \<longrightarrow> (\<forall>c\<in>set (freeCells b). r \<le> ?V c)"
        "r < beta \<longrightarrow> (\<exists>c\<in>set (freeCells b). ?V c \<le> r)"
        unfolding freeCells_set Ball_def Bex_def by blast
      from r(2,3,4) have "failSoft alpha beta (gameValue b False) r"
        unfolding gameValue_min [OF nt] failSoft_def
        by (simp add: fold_min_le le_fold_min)
      with r(1) nt False show ?thesis
        by (simp add: Let_def)
    qed
  qed
qed

subsection \<open>The full window is exact, and the driver picks a best move\<close>

lemma minimax_exact:
  assumes "countFree b < fuel"
  shows "minimax fuel b depth isMax INT_MIN INT_MAX = Some (gameValue b isMax, b)"
proof -
  have "INT_MIN < INT_MAX"
    by (simp add: INT_MIN_def INT_MAX_def)
  from minimax_ab [OF assms order_refl this order_refl, of depth isMax]
  obtain r where r: "minimax fuel b depth isMax INT_MIN INT_MAX = Some (r, b)"
    and fs: "failSoft INT_MIN INT_MAX (gameValue b isMax) r"
    by blast
  from fs gameValue_bounds [of b isMax] have "r = gameValue b isMax"
    unfolding failSoft_def by linarith
  with r show ?thesis by simp
qed

lemma minimaxScan_val:
  assumes "\<And>i j. (i, j) \<in> set cells \<Longrightarrow> b i j = EMPTY \<Longrightarrow>
             minimax fuel (setCell b i j COMPUTER) 0 False INT_MIN INT_MAX
               = Some (V (i, j), setCell b i j COMPUTER)"
  shows "\<exists>s mv. minimaxScan fuel cells b bestScore bestMove = Some (s, mv, b) \<and>
           bestScore \<le> s \<and>
           (\<forall>c\<in>set cells. b (fst c) (snd c) = EMPTY \<longrightarrow> V c \<le> s) \<and>
           (s = bestScore \<and> mv = bestMove \<or>
            bestScore < s \<and> mv \<in> set cells \<and> b (fst mv) (snd mv) = EMPTY \<and> V mv = s)"
  using assms
proof (induction cells arbitrary: bestScore bestMove)
  case Nil
  show ?case by simp
next
  case (Cons c cells)
  obtain i j where c: "c = (i, j)" by (cases c)
  have ih: "\<exists>s mv. minimaxScan fuel cells b bs bm = Some (s, mv, b) \<and>
           bs \<le> s \<and>
           (\<forall>c\<in>set cells. b (fst c) (snd c) = EMPTY \<longrightarrow> V c \<le> s) \<and>
           (s = bs \<and> mv = bm \<or>
            bs < s \<and> mv \<in> set cells \<and> b (fst mv) (snd mv) = EMPTY \<and> V mv = s)" for bs bm
    by (rule Cons.IH) (rule Cons.prems, simp_all)
  show ?case
  proof (cases "b i j = EMPTY")
    case False
    from ih [of bestScore bestMove] False c show ?thesis
      by auto
  next
    case True
    have call: "minimax fuel (setCell b i j COMPUTER) 0 False INT_MIN INT_MAX
               = Some (V (i, j), setCell b i j COMPUTER)"
      by (rule Cons.prems) (simp_all add: c True)
    show ?thesis
    proof (cases "V (i, j) > bestScore")
      case better: True
      from ih [of "V (i, j)" "(i, j)"] obtain s mv where
        r: "minimaxScan fuel cells b (V (i, j)) (i, j) = Some (s, mv, b)" "V (i, j) \<le> s"
          "\<forall>c\<in>set cells. b (fst c) (snd c) = EMPTY \<longrightarrow> V c \<le> s"
          "s = V (i, j) \<and> mv = (i, j) \<or>
            V (i, j) < s \<and> mv \<in> set cells \<and> b (fst mv) (snd mv) = EMPTY \<and> V mv = s"
        by blast
      from call True c better r(1)
      have "minimaxScan fuel (c # cells) b bestScore bestMove = Some (s, mv, b)"
        by (simp add: setCell_restore Let_def)
      moreover from r(2) better have "bestScore < s" by simp
      moreover from r(2,3) c
      have "\<forall>c\<in>set (c # cells). b (fst c) (snd c) = EMPTY \<longrightarrow> V c \<le> s"
        by simp
      moreover from r(4) True c
      have "mv \<in> set (c # cells) \<and> b (fst mv) (snd mv) = EMPTY \<and> V mv = s"
        by auto
      ultimately show ?thesis
        by (intro exI [of _ s] exI [of _ mv]) simp
    next
      case worse: False
      from ih [of bestScore bestMove] obtain s mv where
        r: "minimaxScan fuel cells b bestScore bestMove = Some (s, mv, b)" "bestScore \<le> s"
          "\<forall>c\<in>set cells. b (fst c) (snd c) = EMPTY \<longrightarrow> V c \<le> s"
          "s = bestScore \<and> mv = bestMove \<or>
            bestScore < s \<and> mv \<in> set cells \<and> b (fst mv) (snd mv) = EMPTY \<and> V mv = s"
        by blast
      from call True c worse r(1)
      have "minimaxScan fuel (c # cells) b bestScore bestMove = Some (s, mv, b)"
        by (simp add: setCell_restore Let_def)
      moreover from r(2,3) worse c
      have "\<forall>c\<in>set (c # cells). b (fst c) (snd c) = EMPTY \<longrightarrow> V c \<le> s"
        by simp
      moreover from r(4)
      have "s = bestScore \<and> mv = bestMove \<or>
            bestScore < s \<and> mv \<in> set (c # cells) \<and> b (fst mv) (snd mv) = EMPTY \<and> V mv = s"
        by auto
      ultimately show ?thesis
        using r(2) by (intro exI [of _ s] exI [of _ mv]) simp
    qed
  qed
qed

lemma minimaxScan_eq_plain:
  assumes "\<And>i j. (i, j) \<in> set cells \<Longrightarrow> b i j = EMPTY \<Longrightarrow>
             minimax fuel (setCell b i j COMPUTER) 0 False INT_MIN INT_MAX
               = Some (V (i, j), setCell b i j COMPUTER)"
    and "\<And>i j. (i, j) \<in> set cells \<Longrightarrow> b i j = EMPTY \<Longrightarrow>
             minimax_plain fuel (setCell b i j COMPUTER) 0 False INT_MIN INT_MAX
               = Some (V (i, j), setCell b i j COMPUTER)"
  shows "minimaxScan_plain fuel cells b bestScore bestMove =
         minimaxScan fuel cells b bestScore bestMove"
  using assms
proof (induction cells arbitrary: bestScore bestMove)
  case Nil
  show ?case by simp
next
  case (Cons c cells)
  obtain i j where c: "c = (i, j)" by (cases c)
  have ih: "minimaxScan_plain fuel cells b bs bm = minimaxScan fuel cells b bs bm" for bs bm
    by (rule Cons.IH) (rule Cons.prems, simp_all)+
  show ?case
  proof (cases "b i j = EMPTY")
    case False
    with ih c show ?thesis by simp
  next
    case True
    have "minimax fuel (setCell b i j COMPUTER) 0 False INT_MIN INT_MAX
               = Some (V (i, j), setCell b i j COMPUTER)"
      by (rule Cons.prems(1)) (simp_all add: c True)
    moreover have "minimax_plain fuel (setCell b i j COMPUTER) 0 False INT_MIN INT_MAX
               = Some (V (i, j), setCell b i j COMPUTER)"
      by (rule Cons.prems(2)) (simp_all add: c True)
    ultimately show ?thesis
      using True c by (simp add: setCell_restore Let_def ih)
  qed
qed

subsection \<open>Values and strategies\<close>

lemma checkWinner_range:
  assumes "marksOnly b"
  shows "checkWinner b \<in> {EMPTY, PLAYER, COMPUTER, DRAW}"
proof (cases "firstLineMark b")
  case None
  then show ?thesis by (simp add: checkWinner_firstLine)
next
  case (Some s)
  with firstLineMark_marks [OF assms Some] show ?thesis
    by (auto simp: checkWinner_firstLine)
qed

lemma secures_value: "secures b m \<Longrightarrow> 0 \<le> gameValue b m"
proof (induction rule: secures.induct)
  case (over b m)
  then show ?case
    using gameValue_over [of b m] by auto
next
  case (computer_moves b c)
  from computer_moves.hyps(1)
  have nt: "checkWinner b \<noteq> COMPUTER" "checkWinner b \<noteq> PLAYER" "checkWinner b \<noteq> DRAW"
    by (simp_all add: marks_distinct)
  from computer_moves.hyps(2) computer_moves.IH show ?case
    unfolding gameValue_max [OF nt] le_fold_max by auto
next
  case (player_moves b)
  from player_moves.hyps(1)
  have nt: "checkWinner b \<noteq> COMPUTER" "checkWinner b \<noteq> PLAYER" "checkWinner b \<noteq> DRAW"
    by (simp_all add: marks_distinct)
  from player_moves.IH show ?case
    unfolding gameValue_min [OF nt] le_fold_min by (auto simp: INT_MAX_def)
qed

lemma value_secures: "marksOnly b \<Longrightarrow> 0 \<le> gameValue b m \<Longrightarrow> secures b m"
proof (induction b m rule: gameValue.induct)
  case (1 b isMaximizing)
  from checkWinner_range [OF "1.prems"(1)]
  consider "checkWinner b = COMPUTER \<or> checkWinner b = DRAW" | "checkWinner b = PLAYER"
    | "checkWinner b = EMPTY"
    by auto
  then show ?case
  proof cases
    case 1
    then show ?thesis by (rule secures.over)
  next
    case 2
    with "1.prems"(2) gameValue_over(2) [of b isMaximizing] show ?thesis
      by simp
  next
    case 3
    then have nt: "checkWinner b \<noteq> COMPUTER" "checkWinner b \<noteq> PLAYER" "checkWinner b \<noteq> DRAW"
      by (simp_all add: marks_distinct)
    show ?thesis
    proof (cases isMaximizing)
      case True
      with "1.prems"(2) have "0 \<le> gameValue b True" by simp
      then obtain c where c: "c \<in> set (freeCells b)"
        and v: "0 \<le> gameValue (setCell b (fst c) (snd c) COMPUTER) False"
        unfolding gameValue_max [OF nt] le_fold_max by (auto simp: INT_MIN_def)
      have "marksOnly (setCell b (fst c) (snd c) COMPUTER)"
        by (rule marksOnly_setCell [OF "1.prems"(1)]) simp
      from "1.IH"(1) [OF refl nt True c this v]
      have "secures (setCell b (fst c) (snd c) COMPUTER) False" .
      from secures.computer_moves [OF 3 c this] True show ?thesis
        by simp
    next
      case False
      with "1.prems"(2) have "0 \<le> gameValue b False" by simp
      then have v: "0 \<le> gameValue (setCell b (fst c) (snd c) PLAYER) True"
        if "c \<in> set (freeCells b)" for c
        using that unfolding gameValue_min [OF nt] le_fold_min by auto
      have "secures (setCell b (fst c) (snd c) PLAYER) True" if c: "c \<in> set (freeCells b)" for c
      proof -
        have "marksOnly (setCell b (fst c) (snd c) PLAYER)"
          by (rule marksOnly_setCell [OF "1.prems"(1)]) simp
        from "1.IH"(2) [OF refl nt False c this v [OF c]] show ?thesis .
      qed
      then have "secures b False"
        by (intro secures.player_moves [OF 3]) simp
      with False show ?thesis by simp
    qed
  qed
qed

lemma minimaxScan_top:
  assumes "countFree b \<le> fuel"
  shows "\<exists>s mv. minimaxScan fuel allCells b INT_MIN (- 1, - 1) = Some (s, mv, b) \<and>
           minimaxScan_plain fuel allCells b INT_MIN (- 1, - 1) = Some (s, mv, b) \<and>
           (\<forall>c\<in>set (freeCells b). gameValue (setCell b (fst c) (snd c) COMPUTER) False \<le> s) \<and>
           (s = INT_MIN \<and> mv = (- 1, - 1) \<or>
            mv \<in> set (freeCells b) \<and> gameValue (setCell b (fst mv) (snd mv) COMPUTER) False = s)"
proof -
  let ?V = "\<lambda>c. gameValue (setCell b (fst c) (snd c) COMPUTER) False"
  have less: "countFree (setCell b i j COMPUTER) < fuel"
    if "(i, j) \<in> set allCells" "b i j = EMPTY" for i j
    using countFree_setCell [of i j b COMPUTER] that assms by (simp add: marks_distinct)
  have ab: "minimax fuel (setCell b i j COMPUTER) 0 False INT_MIN INT_MAX
               = Some (?V (i, j), setCell b i j COMPUTER)"
    if "(i, j) \<in> set allCells" "b i j = EMPTY" for i j
    using minimax_exact [OF less [OF that]] by simp
  have pl: "minimax_plain fuel (setCell b i j COMPUTER) 0 False INT_MIN INT_MAX
               = Some (?V (i, j), setCell b i j COMPUTER)"
    if "(i, j) \<in> set allCells" "b i j = EMPTY" for i j
    using minimax_plain_val [OF less [OF that]] by simp
  have "\<exists>s mv. minimaxScan fuel allCells b INT_MIN (- 1, - 1) = Some (s, mv, b) \<and>
           INT_MIN \<le> s \<and>
           (\<forall>c\<in>set allCells. b (fst c) (snd c) = EMPTY \<longrightarrow> ?V c \<le> s) \<and>
           (s = INT_MIN \<and> mv = (- 1, - 1) \<or>
            INT_MIN < s \<and> mv \<in> set allCells \<and> b (fst mv) (snd mv) = EMPTY \<and> ?V mv = s)"
    by (rule minimaxScan_val [where V = ?V]) (rule ab, assumption+)
  then obtain s mv where r: "minimaxScan fuel allCells b INT_MIN (- 1, - 1) = Some (s, mv, b)"
    "\<forall>c\<in>set allCells. b (fst c) (snd c) = EMPTY \<longrightarrow> ?V c \<le> s"
    "s = INT_MIN \<and> mv = (- 1, - 1) \<or>
       INT_MIN < s \<and> mv \<in> set allCells \<and> b (fst mv) (snd mv) = EMPTY \<and> ?V mv = s"
    by (elim exE conjE) (rule that, assumption+)
  have "minimaxScan_plain fuel allCells b INT_MIN (- 1, - 1) =
      minimaxScan fuel allCells b INT_MIN (- 1, - 1)"
    by (rule minimaxScan_eq_plain [where V = ?V]) ((rule ab | rule pl), assumption+)+
  with r(1) have "minimaxScan_plain fuel allCells b INT_MIN (- 1, - 1) = Some (s, mv, b)"
    by simp
  moreover from r(2)
  have "\<forall>c\<in>set (freeCells b). ?V c \<le> s"
    by (simp add: freeCells_set)
  moreover from r(3)
  have "s = INT_MIN \<and> mv = (- 1, - 1) \<or> mv \<in> set (freeCells b) \<and> ?V mv = s"
    unfolding freeCells_set by (elim disjE conjE) simp_all
  ultimately show ?thesis
    using r(1) by (intro exI [of _ s] exI [of _ mv] conjI)
qed

subsection \<open>Pruning and optimality\<close>

text \<open>
  Claim C1. On every board with at most six free cells, and with a depth bound above the
  number of free cells (ten always is), minimax with the cutoff, called with the window
  \<^verbatim>\<open>(INT_MIN, INT_MAX)\<close> as the driver does, returns the same score as plain minimax
  (the function with the cutoff removed), and the driver's scan returns the same best
  score and best move over both. Both searches return, and leave the board unchanged.
\<close>

theorem pruning_preserves_result:
  assumes "countFree b \<le> 6" and "countFree b < fuel"
  shows "(\<exists>score. minimax fuel b depth isMaximizing INT_MIN INT_MAX = Some (score, b) \<and>
            minimax_plain fuel b depth isMaximizing INT_MIN INT_MAX = Some (score, b)) \<and>
         (\<exists>bestScore bestMove.
            minimaxScan fuel allCells b INT_MIN (- 1, - 1) = Some (bestScore, bestMove, b) \<and>
            minimaxScan_plain fuel allCells b INT_MIN (- 1, - 1) = Some (bestScore, bestMove, b))"
proof
  from minimax_exact [OF assms(2)] minimax_plain_val [OF assms(2)]
  show "\<exists>score. minimax fuel b depth isMaximizing INT_MIN INT_MAX = Some (score, b) \<and>
            minimax_plain fuel b depth isMaximizing INT_MIN INT_MAX = Some (score, b)"
    by simp
next
  from assms(2) have "countFree b \<le> fuel" by simp
  from minimaxScan_top [OF this]
  show "\<exists>bestScore bestMove.
            minimaxScan fuel allCells b INT_MIN (- 1, - 1) = Some (bestScore, bestMove, b) \<and>
            minimaxScan_plain fuel allCells b INT_MIN (- 1, - 1) = Some (bestScore, bestMove, b)"
    by blast
qed

theorem pruning_preserves_result_witness:
  "countFree (mkBoard [''XOX'', ''XOO'', '' X '']) \<le> 6 \<and>
   countFree (mkBoard [''XOX'', ''XOO'', '' X '']) < 10 \<and>
   (\<exists>score. minimax 10 (mkBoard [''XOX'', ''XOO'', '' X '']) 0 False INT_MIN INT_MAX
        = Some (score, mkBoard [''XOX'', ''XOO'', '' X '']) \<and>
      minimax_plain 10 (mkBoard [''XOX'', ''XOO'', '' X '']) 0 False INT_MIN INT_MAX
        = Some (score, mkBoard [''XOX'', ''XOO'', '' X ''])) \<and>
   (\<exists>bestScore bestMove.
      minimaxScan 10 allCells (mkBoard [''XOX'', ''XOO'', '' X '']) INT_MIN (- 1, - 1)
        = Some (bestScore, bestMove, mkBoard [''XOX'', ''XOO'', '' X '']) \<and>
      minimaxScan_plain 10 allCells (mkBoard [''XOX'', ''XOO'', '' X '']) INT_MIN (- 1, - 1)
        = Some (bestScore, bestMove, mkBoard [''XOX'', ''XOO'', '' X '']))"
proof -
  have f: "freeCells (mkBoard [''XOX'', ''XOO'', '' X '']) = [(2, 0), (2, 2)]"
    by (simp add: freeCells_def allCells_unfold mkBoard_apply EMPTY_def)
  have c: "countFree (mkBoard [''XOX'', ''XOO'', '' X '']) \<le> 6"
    "countFree (mkBoard [''XOX'', ''XOO'', '' X '']) < 10"
    by (simp_all add: countFree_def f)
  from c pruning_preserves_result [OF c, of 0 False] show ?thesis
    by simp
qed

text \<open>
  Claim C2. On a board that holds only blanks, X and O and on which the game is not over,
  if some free cell leads to a position from which the automated side can hold at least a
  draw against every play of the opponent, then the scan of \<^verbatim>\<open>minimaxMove\<close> returns a
  free cell with that property, and \<^verbatim>\<open>minimaxMove\<close> plays it: it writes O into that cell
  of the live board and appends the move to the computer's history. The depth bound only
  has to reach the number of free cells.
\<close>

theorem minimaxMove_keeps_draw:
  assumes "marksOnly (board g)" and "checkWinner (board g) = EMPTY"
    and "countFree (board g) \<le> fuel"
    and "\<exists>c\<in>set (freeCells (board g)). secures (setCell (board g) (fst c) (snd c) COMPUTER) False"
  shows "\<exists>bestScore bestMove.
           minimaxScan fuel allCells (board g) INT_MIN (- 1, - 1)
             = Some (bestScore, bestMove, board g) \<and>
           bestMove \<in> set (freeCells (board g)) \<and>
           secures (setCell (board g) (fst bestMove) (snd bestMove) COMPUTER) False \<and>
           minimaxMove fuel g =
             Some (g\<lparr>board := setCell (board g) (fst bestMove) (snd bestMove) COMPUTER,
                     computerMoves := computerMoves g @ [bestMove]\<rparr>)"
proof -
  let ?b = "board g"
  let ?V = "\<lambda>c. gameValue (setCell ?b (fst c) (snd c) COMPUTER) False"
  from minimaxScan_top [OF assms(3)] obtain s mv where
    r: "minimaxScan fuel allCells ?b INT_MIN (- 1, - 1) = Some (s, mv, ?b)"
      "\<forall>c\<in>set (freeCells ?b). ?V c \<le> s"
      "s = INT_MIN \<and> mv = (- 1, - 1) \<or> mv \<in> set (freeCells ?b) \<and> ?V mv = s"
    by (elim exE conjE) (rule that, assumption+)
  from assms(4) obtain c where c: "c \<in> set (freeCells ?b)"
    and sc: "secures (setCell ?b (fst c) (snd c) COMPUTER) False"
    by blast
  from secures_value [OF sc] r(2) c have s0: "0 \<le> s"
    by fastforce
  with r(3) have mv: "mv \<in> set (freeCells ?b)" and v: "?V mv = s"
    by (simp_all add: INT_MIN_def)
  have "marksOnly (setCell ?b (fst mv) (snd mv) COMPUTER)"
    by (rule marksOnly_setCell [OF assms(1)]) simp
  from value_secures [OF this] v s0
  have sec: "secures (setCell ?b (fst mv) (snd mv) COMPUTER) False"
    by simp
  from mv have "mv \<in> set allCells"
    by (simp add: freeCells_set)
  then have "fst mv \<noteq> - 1"
    by (auto simp: allCells_unfold)
  with r(1) have "minimaxMove fuel g =
      Some (g\<lparr>board := setCell ?b (fst mv) (snd mv) COMPUTER,
              computerMoves := computerMoves g @ [mv]\<rparr>)"
    by (simp add: minimaxMove_def)
  with r(1) mv sec show ?thesis
    by blast
qed

lemmas board_eval = checkWinner_unfold setCell_apply mkBoard_apply countFree_def freeCells_def
  allCells_unfold marksOnly_def PLAYER_def COMPUTER_def EMPTY_def DRAW_def

theorem minimaxMove_keeps_draw_witness:
  "marksOnly (mkBoard [''XOX'', ''XOO'', '' X '']) \<and>
   checkWinner (mkBoard [''XOX'', ''XOO'', '' X '']) = EMPTY \<and>
   countFree (mkBoard [''XOX'', ''XOO'', '' X '']) \<le> 10 \<and>
   secures (setCell (mkBoard [''XOX'', ''XOO'', '' X '']) 2 0 COMPUTER) False \<and>
   (\<exists>bestScore bestMove.
      minimaxScan 10 allCells (mkBoard [''XOX'', ''XOO'', '' X '']) INT_MIN (- 1, - 1)
        = Some (bestScore, bestMove, mkBoard [''XOX'', ''XOO'', '' X '']) \<and>
      bestMove \<in> set (freeCells (mkBoard [''XOX'', ''XOO'', '' X ''])) \<and>
      secures (setCell (mkBoard [''XOX'', ''XOO'', '' X '']) (fst bestMove) (snd bestMove)
        COMPUTER) False)"
proof -
  let ?b = "mkBoard [''XOX'', ''XOO'', '' X '']"
  let ?g = "\<lparr>board = ?b, playerMoves = [(0, 0), (0, 2), (1, 0), (2, 1)],
    computerMoves = [(0, 1), (1, 1), (1, 2)]\<rparr>"
  have m: "marksOnly (board ?g)"
    by (simp add: board_eval)
  have w: "checkWinner (board ?g) = EMPTY"
    by (simp add: board_eval)
  have n: "countFree (board ?g) \<le> 10"
    by (simp add: board_eval)
  have w1: "checkWinner (setCell ?b 2 0 COMPUTER) = EMPTY"
    by (simp add: board_eval)
  have f1: "freeCells (setCell ?b 2 0 COMPUTER) = [(2, 2)]"
    by (simp add: board_eval)
  have w2: "checkWinner (setCell (setCell ?b 2 0 COMPUTER) 2 2 PLAYER) = DRAW"
    by (simp add: board_eval)
  have "secures (setCell (setCell ?b 2 0 COMPUTER) 2 2 PLAYER) True"
    by (rule secures.over) (simp add: w2)
  then have s: "secures (setCell ?b 2 0 COMPUTER) False"
    by (intro secures.player_moves w1) (simp add: f1)
  have f: "freeCells ?b = [(2, 0), (2, 2)]"
    by (simp add: board_eval)
  from s have e: "\<exists>c\<in>set (freeCells (board ?g)).
      secures (setCell (board ?g) (fst c) (snd c) COMPUTER) False"
    by (simp add: f)
  from minimaxMove_keeps_draw [OF m w n e] m w n s show ?thesis
    by auto
qed

section \<open>Monte Carlo tree search\<close>

subsection \<open>The search tree\<close>

text \<open>
  \<^verbatim>\<open>struct MCTSNode\<close>. Nodes live on the heap and point to each other
  (\<^verbatim>\<open>NodePtr parent\<close>, \<^verbatim>\<open>vector<NodePtr> children\<close>). The heap of one search is the list
  of the nodes allocated so far; a \<^verbatim>\<open>NodePtr\<close> is an index into it, \<open>None\<close> is
  \<^verbatim>\<open>NULL\<close>, and \<^verbatim>\<open>new MCTSNode(...)\<close> appends a node and returns its index. The root is
  allocated first, so it is node 0. The counters \<open>W\<close> and \<open>N\<close> are \<^verbatim>\<open>int\<close>s that only
  grow by one per iteration, so they stay below the iteration count and cannot overflow.
\<close>

record MCTSNode =
  boardState :: board
  playerToMove :: char
  lastMove :: Move
  W :: int
  N :: int
  parent :: "nat option"
  children :: "nat list"
  untriedMoves :: "Move list"

text \<open>
  What the search takes from outside the program text.

  \<^item> \<^verbatim>\<open>rand()\<close>: the generator is a hidden global; \<open>rand env k\<close> is the value that the
    \<open>k\<close>-th call returns, and the state of the search counts the calls made.
  \<^item> \<^verbatim>\<open>std::random_shuffle\<close>: given the number of \<^verbatim>\<open>rand()\<close> calls made so far and a
    vector, the shuffled vector and the new number of calls. The library only promises
    a permutation (\<open>shuffle_ok\<close>). The second version of the program in the repository
    does not shuffle: there the function is the identity.
  \<^item> The \<^verbatim>\<open>double\<close> arithmetic of \<^verbatim>\<open>calculateUCT\<close> and \<^verbatim>\<open>selectChild\<close>: the values of
    type \<^verbatim>\<open>double\<close> are kept abstract (the type \<open>'u\<close>), with the value of
    \<^verbatim>\<open>(double)W / N + 1.414 * sqrt(log((double)parentVisits) / N)\<close> as a function of the
    three integers, the conversions of \<^verbatim>\<open>INT_MAX\<close> and of \<^verbatim>\<open>-1.0\<close>, and the comparison
    \<^verbatim>\<open>>\<close>. Nothing is assumed about them, so every statement below holds for whatever
    the floating-point unit computes.
\<close>

record 'u env =
  rand :: "nat \<Rightarrow> nat"
  random_shuffle :: "nat \<Rightarrow> Move list \<Rightarrow> Move list \<times> nat"
  ucb_double :: "int \<Rightarrow> int \<Rightarrow> int \<Rightarrow> 'u"
  int_max_double :: "'u"
  minus_one_double :: "'u"
  greater_double :: "'u \<Rightarrow> 'u \<Rightarrow> bool"

definition shuffle_ok :: "'u env \<Rightarrow> bool" where
  "shuffle_ok env = (\<forall>k xs. mset (fst (random_shuffle env k xs)) = mset xs)"

text \<open>The state of one search: its heap of nodes and the calls of \<^verbatim>\<open>rand()\<close> so far.\<close>

record search =
  tree :: "MCTSNode list"
  rcalls :: nat

text \<open>The globals of the program together with the state of the generator.\<close>

record world = game +
  rng_calls :: nat

text \<open>
  The constructor \<^verbatim>\<open>MCTSNode(b, p, lm, player)\<close>: it copies the board cell by cell,
  collects the empty cells in row-major order and shuffles them.
\<close>

definition newNode :: "'u env \<Rightarrow> search \<Rightarrow> board \<Rightarrow> nat option \<Rightarrow> Move \<Rightarrow> char \<Rightarrow> nat \<times> search" where
  "newNode env s b p lm player =
     (let (moves, k) = random_shuffle env (rcalls s) (freeCells b)
      in (length (tree s),
          \<lparr>tree = tree s @ [\<lparr>boardState = b, playerToMove = player, lastMove = lm, W = 0, N = 0,
                               parent = p, children = [], untriedMoves = moves\<rparr>],
           rcalls = k\<rparr>))"

definition calculateUCT :: "'u env \<Rightarrow> MCTSNode \<Rightarrow> int \<Rightarrow> 'u" where
  "calculateUCT env node parentVisits =
     (if N node = 0 then int_max_double env
      else ucb_double env (W node) (N node) parentVisits)"

text \<open>
  \<^verbatim>\<open>selectChild\<close>: the loop over the children keeps the first child whose value is
  greater than every value before it, starting from \<^verbatim>\<open>bestUCT = -1.0\<close> and
  \<^verbatim>\<open>bestChild = NULL\<close>.
\<close>

definition selectChild :: "'u env \<Rightarrow> MCTSNode list \<Rightarrow> nat \<Rightarrow> nat option" where
  "selectChild env t node =
     fst (fold (\<lambda>child (bestChild, bestUCT).
                  let uctValue = calculateUCT env (t ! child) (N (t ! node))
                  in if greater_double env uctValue bestUCT then (Some child, uctValue)
                     else (bestChild, bestUCT))
            (children (t ! node)) (None, minus_one_double env))"

text \<open>
  \<^verbatim>\<open>expandNode\<close> takes \<^verbatim>\<open>untriedMoves.back()\<close>, which has no defined result on an
  empty vector: the model returns \<open>None\<close> there. \<^verbatim>\<open>runMCTS\<close> only calls it on a node
  with an untried move.
\<close>

definition expandNode :: "'u env \<Rightarrow> search \<Rightarrow> nat \<Rightarrow> (nat \<times> search) option" where
  "expandNode env s node =
     (if untriedMoves (tree s ! node) = [] then None
      else
        let move = last (untriedMoves (tree s ! node));
            s1 = s\<lparr>tree := (tree s)[node := (tree s ! node)
                    \<lparr>untriedMoves := butlast (untriedMoves (tree s ! node))\<rparr>]\<rparr>;
            newBoard = setCell (boardState (tree s1 ! node)) (fst move) (snd move)
                         (playerToMove (tree s1 ! node));
            nextPlayer = (if playerToMove (tree s1 ! node) = PLAYER then COMPUTER else PLAYER);
            (newChild, s2) = newNode env s1 newBoard (Some node) move nextPlayer;
            s3 = s2\<lparr>tree := (tree s2)[node := (tree s2 ! node)
                    \<lparr>children := children (tree s2 ! node) @ [newChild]\<rparr>]\<rparr>
        in Some (newChild, s3))"

subsection \<open>Rollout and backpropagation\<close>

text \<open>
  The \<^verbatim>\<open>while (true)\<close> loop of \<^verbatim>\<open>simulateGame\<close> on its private copy \<^verbatim>\<open>tempBoard\<close>. It
  returns the score and the number of \<^verbatim>\<open>rand()\<close> calls made. Each round fills a free cell,
  except a first round with a blank as the side to move, which the callers never pass;
  this is the measure of the termination proof.
\<close>

function simulateLoop :: "'u env \<Rightarrow> board \<Rightarrow> char \<Rightarrow> nat \<Rightarrow> int \<times> nat" where
  "simulateLoop env tempBoard currentPlayer k =
     (let winner = checkWinner tempBoard in
      if winner \<noteq> EMPTY then
        (if winner = COMPUTER then 10 else if winner = PLAYER then - 10 else 0, k)
      else
        let freeSpaces = freeCells tempBoard in
        if freeSpaces = [] then (0, k)
        else
          let random_index = rand env k mod length freeSpaces;
              random_move = freeSpaces ! random_index
          in simulateLoop env
               (setCell tempBoard (fst random_move) (snd random_move) currentPlayer)
               (if currentPlayer = PLAYER then COMPUTER else PLAYER) (k + 1))"
  by pat_completeness auto
termination
proof (relation "measure (\<lambda>(env, b, p, k). 2 * countFree b + (if p = EMPTY then 1 else 0))")
  show "wf (measure (\<lambda>(env :: 'u env, b, p, k :: nat).
      2 * countFree b + (if p = EMPTY then 1 else 0)))"
    by simp
next
  fix env :: "'u env" and tempBoard currentPlayer k winner freeSpaces random_index random_move
  assume a: "freeSpaces = freeCells tempBoard" "freeSpaces \<noteq> []"
    "random_index = rand env k mod length freeSpaces" "random_move = freeSpaces ! random_index"
  then have "random_move \<in> set (freeCells tempBoard)"
    by simp
  then have mem: "(fst random_move, snd random_move) \<in> set allCells"
    and emp: "tempBoard (fst random_move) (snd random_move) = EMPTY"
    by (simp_all add: freeCells_set)
  show "((env, setCell tempBoard (fst random_move) (snd random_move) currentPlayer,
          if currentPlayer = PLAYER then COMPUTER else PLAYER, k + 1),
         env, tempBoard, currentPlayer, k)
        \<in> measure (\<lambda>(env, b, p, k). 2 * countFree b + (if p = EMPTY then 1 else 0))"
  proof (cases "currentPlayer = EMPTY")
    case True
    with emp have "setCell tempBoard (fst random_move) (snd random_move) currentPlayer = tempBoard"
      by (intro ext) (simp add: setCell_apply)
    with True show ?thesis
      by (simp add: marks_distinct)
  next
    case False
    from countFree_setCell [of "fst random_move" "snd random_move" tempBoard currentPlayer]
      mem emp False
    show ?thesis
      by simp
  qed
qed

declare simulateLoop.simps [simp del]

definition simulateGame :: "'u env \<Rightarrow> board \<Rightarrow> char \<Rightarrow> nat \<Rightarrow> int \<times> nat" where
  "simulateGame env b player k = simulateLoop env b player k"

text \<open>
  \<^verbatim>\<open>backpropagate\<close> follows the \<^verbatim>\<open>parent\<close> pointers until \<^verbatim>\<open>NULL\<close>. On a heap whose
  parent pointers form a cycle the loop would not end: not returning is \<open>None\<close>.
\<close>

partial_function (option) backpropagate :: "MCTSNode list \<Rightarrow> nat option \<Rightarrow> int \<Rightarrow> MCTSNode list option" where
  "backpropagate t current result =
     (case current of
        None \<Rightarrow> Some t
      | Some p \<Rightarrow>
          let score_to_backpropagate = (if result = 10 then 1 else if result = - 10 then 0 else 0)
          in backpropagate
               (t[p := (t ! p)\<lparr>N := N (t ! p) + 1, W := W (t ! p) + score_to_backpropagate\<rparr>])
               (parent (t ! p)) result)"

subsection \<open>One search\<close>

text \<open>
  The selection loop of \<^verbatim>\<open>runMCTS\<close>:
  \<^verbatim>\<open>while (node->untriedMoves.empty() && checkWinner(node->boardState) == ' ')\<close>, left by
  \<^verbatim>\<open>break\<close> when \<^verbatim>\<open>selectChild\<close> returns \<^verbatim>\<open>NULL\<close>.
\<close>

partial_function (option) selectLoop :: "'u env \<Rightarrow> MCTSNode list \<Rightarrow> nat \<Rightarrow> nat option" where
  "selectLoop env t node =
     (if untriedMoves (t ! node) = [] \<and> checkWinner (boardState (t ! node)) = EMPTY then
        (case selectChild env t node of
           None \<Rightarrow> Some node
         | Some selected \<Rightarrow> selectLoop env t selected)
      else Some node)"

text \<open>The body of the \<^verbatim>\<open>for\<close> loop of \<^verbatim>\<open>runMCTS\<close>: selection, expansion, rollout, backpropagation.\<close>

definition mctsIteration :: "'u env \<Rightarrow> nat \<Rightarrow> search \<Rightarrow> search option" where
  "mctsIteration env root s =
     (case selectLoop env (tree s) root of
        None \<Rightarrow> None
      | Some node \<Rightarrow>
         (case (if untriedMoves (tree s ! node) \<noteq> [] \<and>
                    checkWinner (boardState (tree s ! node)) = EMPTY
                then expandNode env s node else Some (node, s)) of
            None \<Rightarrow> None
          | Some (node1, s1) \<Rightarrow>
             let winner = checkWinner (boardState (tree s1 ! node1));
                 (result, k) =
                   (if winner = EMPTY
                    then simulateGame env (boardState (tree s1 ! node1))
                           (playerToMove (tree s1 ! node1)) (rcalls s1)
                    else (if winner = COMPUTER then 10 else if winner = PLAYER then - 10 else 0,
                          rcalls s1))
             in (case backpropagate (tree s1) (Some node1) result of
                   None \<Rightarrow> None
                 | Some t \<Rightarrow> Some \<lparr>tree = t, rcalls = k\<rparr>)))"

text \<open>\<^verbatim>\<open>for (int i = 0; i < iterations; ++i)\<close>, with the number of rounds left.\<close>

fun mctsLoop :: "'u env \<Rightarrow> nat \<Rightarrow> nat \<Rightarrow> search \<Rightarrow> search option" where
  "mctsLoop env root 0 s = Some s"
| "mctsLoop env root (Suc n) s =
     (case mctsIteration env root s of
        None \<Rightarrow> None
      | Some s' \<Rightarrow> mctsLoop env root n s')"

text \<open>
  The final loop of \<^verbatim>\<open>runMCTS\<close> over the children of the root, from
  \<^verbatim>\<open>bestChild = NULL\<close> and \<^verbatim>\<open>maxVisits = -1\<close>.
\<close>

definition bestChildOf :: "MCTSNode list \<Rightarrow> nat \<Rightarrow> nat option" where
  "bestChildOf t root =
     fst (fold (\<lambda>child (bestChild, maxVisits).
                  if N (t ! child) > maxVisits then (Some child, N (t ! child))
                  else (bestChild, maxVisits))
            (children (t ! root)) (None, - 1))"

text \<open>
  \<^verbatim>\<open>runMCTS\<close> up to the end of its iterations: the root is built from the board passed
  in, with no parent, the sentinel as last move and the computer to move. A negative
  \<^verbatim>\<open>iterations\<close> runs no round.
\<close>

definition mctsTree :: "'u env \<Rightarrow> board \<Rightarrow> int \<Rightarrow> nat \<Rightarrow> search option" where
  "mctsTree env currentBoard iterations k =
     (let (root, s0) = newNode env \<lparr>tree = [], rcalls = k\<rparr> currentBoard None (- 1, - 1) COMPUTER
      in mctsLoop env root (nat iterations) s0)"

text \<open>
  \<^verbatim>\<open>runMCTS(board, iterations)\<close> as \<^verbatim>\<open>mctsMove\<close> calls it, on the globals: it returns
  the move of the most visited child of the root, or the sentinel \<^verbatim>\<open>(-1, -1)\<close>, and
  deletes the tree. The parameter is a \<^verbatim>\<open>const\<close> array that is only read by the root's
  constructor; of the globals, only the generator has changed on return.
\<close>

definition runMCTS :: "'u env \<Rightarrow> world \<Rightarrow> int \<Rightarrow> (Move \<times> world) option" where
  "runMCTS env w iterations =
     (case mctsTree env (board w) iterations (rng_calls w) of
        None \<Rightarrow> None
      | Some s \<Rightarrow>
          let bestMove = (case bestChildOf (tree s) 0 of
                            Some bestChild \<Rightarrow> lastMove (tree s ! bestChild)
                          | None \<Rightarrow> (- 1, - 1))
          in Some (bestMove, w\<lparr>rng_calls := rcalls s\<rparr>))"

text \<open>\<^verbatim>\<open>mctsMove\<close> plays the move unless it is the sentinel.\<close>

definition mctsMove :: "'u env \<Rightarrow> int \<Rightarrow> world \<Rightarrow> world option" where
  "mctsMove env iterations w =
     (case runMCTS env w iterations of
        None \<Rightarrow> None
      | Some (bestMove, w') \<Rightarrow>
          if fst bestMove \<noteq> - 1
          then Some (w'\<lparr>board := setCell (board w') (fst bestMove) (snd bestMove) COMPUTER,
                        computerMoves := computerMoves w' @ [bestMove]\<rparr>)
          else Some w')"

subsection \<open>Shape of the heap\<close>

text \<open>Every parent pointer points to a node allocated earlier.\<close>

definition parentsOK :: "MCTSNode list \<Rightarrow> bool" where
  "parentsOK t = (\<forall>p<length t. \<forall>q. parent (t ! p) = Some q \<longrightarrow> q < p)"

text \<open>
  \<open>onPath t p q\<close>: node \<open>q\<close> is \<open>p\<close> itself or one of its ancestors, that is, \<open>q\<close> is
  reached from \<open>p\<close> by following parent pointers.
\<close>

inductive onPath :: "MCTSNode list \<Rightarrow> nat \<Rightarrow> nat \<Rightarrow> bool" for t where
  here: "onPath t p p"
| up: "parent (t ! p) = Some q \<Longrightarrow> onPath t q r \<Longrightarrow> onPath t p r"

text \<open>What one backpropagation does to a node on the path.\<close>

definition visited :: "int \<Rightarrow> MCTSNode \<Rightarrow> MCTSNode" where
  "visited result nd = nd\<lparr>N := N nd + 1, W := W nd + (if result = 10 then 1 else 0)\<rparr>"

lemma onPath_cong:
  assumes "\<And>p. parent (t' ! p) = parent (t ! p)"
  shows "onPath t' p q \<longleftrightarrow> onPath t p q"
proof
  assume "onPath t' p q"
  then show "onPath t p q"
    by (induction rule: onPath.induct) (auto intro: onPath.intros simp: assms)
next
  assume "onPath t p q"
  then show "onPath t' p q"
    by (induction rule: onPath.induct) (auto intro: onPath.intros simp: assms [symmetric])
qed

lemma onPath_le:
  assumes "parentsOK t" and "onPath t p q" and "p < length t"
  shows "q \<le> p"
  using assms(2,3)
proof (induction rule: onPath.induct)
  case (here p)
  show ?case by simp
next
  case (up p q r)
  from assms(1) up.hyps(1) up.prems have "q < p"
    by (simp add: parentsOK_def)
  with up.IH up.prems show ?case by simp
qed

lemma onPath_step:
  "onPath t p q \<longleftrightarrow> q = p \<or> (\<exists>r. parent (t ! p) = Some r \<and> onPath t r q)"
  by (auto intro: onPath.intros elim: onPath.cases)

lemma parent_update:
  "parent ((t[p := (t ! p)\<lparr>N := n, W := w\<rparr>]) ! x) = parent (t ! x)"
  by (cases "p < length t") (simp_all add: nth_list_update list_update_beyond)

lemma backpropagate_path:
  assumes "parentsOK t" and "p < length t"
  shows "\<exists>t'. backpropagate t (Some p) result = Some t' \<and> length t' = length t \<and>
           (\<forall>q<length t. t' ! q = (if onPath t p q then visited result (t ! q) else t ! q))"
  using assms
proof (induction p arbitrary: t rule: less_induct)
  case (less p)
  let ?t1 = "t[p := (t ! p)\<lparr>N := N (t ! p) + 1,
      W := W (t ! p) + (if result = 10 then 1 else if result = - 10 then 0 else 0)\<rparr>]"
  have step: "backpropagate t (Some p) result = backpropagate ?t1 (parent (t ! p)) result"
    by (subst backpropagate.simps) (simp add: Let_def)
  have t1p: "?t1 ! p = visited result (t ! p)"
    using less.prems(2) by (simp add: visited_def)
  have t1q: "?t1 ! q = t ! q" if "q \<noteq> p" for q
    using that by simp
  have par: "parent (?t1 ! x) = parent (t ! x)" for x
    by (rule parent_update)
  show ?case
  proof (cases "parent (t ! p)")
    case None
    then have "backpropagate t (Some p) result = Some ?t1"
      using step by (simp add: backpropagate.simps)
    moreover have "onPath t p q \<longleftrightarrow> q = p" for q
      using None by (subst onPath_step) simp
    ultimately show ?thesis
      using t1p t1q by auto
  next
    case (Some r)
    with less.prems have rp: "r < p"
      by (simp add: parentsOK_def)
    have ok1: "parentsOK ?t1"
      using less.prems(1) by (simp add: parentsOK_def par)
    from rp less.prems(2) have r1: "r < length ?t1"
      by simp
    from less.IH [OF rp ok1 r1] obtain t' where
      t': "backpropagate ?t1 (Some r) result = Some t'" "length t' = length ?t1"
        "\<forall>q<length ?t1. t' ! q = (if onPath ?t1 r q then visited result (?t1 ! q) else ?t1 ! q)"
      by blast
    have path1: "onPath ?t1 r q \<longleftrightarrow> onPath t r q" for q
      by (rule onPath_cong) (rule par)
    have path: "onPath t p q \<longleftrightarrow> q = p \<or> onPath t r q" for q
      using Some by (subst onPath_step) simp
    have notp: "\<not> onPath t r p"
      using onPath_le [OF less.prems(1), of r p] rp less.prems(2) by auto
    have "t' ! q = (if onPath t p q then visited result (t ! q) else t ! q)" if "q < length t" for q
    proof (cases "q = p")
      case True
      with t'(3) that notp t1p path show ?thesis
        by (simp add: path1)
    next
      case False
      with t'(3) that path show ?thesis
        by (simp add: path1)
    qed
    with t'(1,2) step Some show ?thesis
      by simp
  qed
qed

text \<open>
  The heap is a tree rooted at node 0: the root has no parent, every other node has a
  parent allocated before it, and the children of a node are allocated after it.
\<close>

definition treeOK :: "MCTSNode list \<Rightarrow> bool" where
  "treeOK t =
     (t \<noteq> [] \<and> parent (t ! 0) = None \<and>
      (\<forall>p<length t. 0 < p \<longrightarrow> (\<exists>q<p. parent (t ! p) = Some q)) \<and>
      (\<forall>p<length t. \<forall>c\<in>set (children (t ! p)). p < c \<and> c < length t))"

text \<open>
  What the search keeps true of the root built from the board \<open>b\<close>: it holds a copy of
  \<open>b\<close>; its untried moves and the moves of its children are empty cells of \<open>b\<close>; no
  visit count is negative; while the game on \<open>b\<close> is not over the root has an untried
  move or a child, and when it is over the root has no child.
\<close>

definition rootOK :: "board \<Rightarrow> MCTSNode list \<Rightarrow> bool" where
  "rootOK b t =
     (boardState (t ! 0) = b \<and>
      set (untriedMoves (t ! 0)) \<subseteq> set (freeCells b) \<and>
      (\<forall>c\<in>set (children (t ! 0)). lastMove (t ! c) \<in> set (freeCells b)) \<and>
      (\<forall>p<length t. 0 \<le> N (t ! p)) \<and>
      (checkWinner b = EMPTY \<longrightarrow> untriedMoves (t ! 0) \<noteq> [] \<or> children (t ! 0) \<noteq> []) \<and>
      (checkWinner b \<noteq> EMPTY \<longrightarrow> children (t ! 0) = []))"

lemma treeOK_root: "treeOK t \<Longrightarrow> t \<noteq> [] \<and> parent (t ! 0) = None"
  by (simp add: treeOK_def)

lemma treeOK_parent: "treeOK t \<Longrightarrow> p < length t \<Longrightarrow> 0 < p \<Longrightarrow> \<exists>q<p. parent (t ! p) = Some q"
  unfolding treeOK_def by (elim conjE allE [of _ p]) (erule (1) impE, erule (1) impE)

lemma treeOK_children:
  "treeOK t \<Longrightarrow> p < length t \<Longrightarrow> c \<in> set (children (t ! p)) \<Longrightarrow> p < c \<and> c < length t"
  unfolding treeOK_def by (elim conjE allE [of _ p]) (erule (1) impE, erule (1) bspec)

lemma treeOK_parentsOK:
  assumes "treeOK t"
  shows "parentsOK t"
  unfolding parentsOK_def
proof (intro allI impI)
  fix p q
  assume p: "p < length t" and q: "parent (t ! p) = Some q"
  show "q < p"
  proof (cases "p = 0")
    case True
    with q treeOK_root [OF assms] show ?thesis by simp
  next
    case False
    with treeOK_parent [OF assms p] obtain q' where "q' < p" "parent (t ! p) = Some q'"
      by auto
    with q show ?thesis by simp
  qed
qed

lemma root_onPath:
  assumes "treeOK t" and "p < length t"
  shows "onPath t p 0"
  using assms(2)
proof (induction p rule: less_induct)
  case (less p)
  show ?case
  proof (cases "p = 0")
    case True
    then show ?thesis by (simp add: onPath.here)
  next
    case False
    with treeOK_parent [OF assms(1) less.prems] obtain q where q: "q < p" "parent (t ! p) = Some q"
      by auto
    from less.IH [OF q(1)] q(1) less.prems have "onPath t q 0"
      by simp
    with q(2) show ?thesis
      by (rule onPath.up)
  qed
qed

lemma selectChild_fold_mem:
  "fst (fold (\<lambda>child (bestChild, bestUCT).
                  let uctValue = f child
                  in if g uctValue bestUCT then (Some child, uctValue)
                     else (bestChild, bestUCT)) cs (b0, u0)) = Some c \<Longrightarrow>
   b0 = Some c \<or> c \<in> set cs"
  by (induction cs arbitrary: b0 u0) (auto simp: Let_def split: if_splits)

lemma selectChild_mem:
  "selectChild env t node = Some c \<Longrightarrow> c \<in> set (children (t ! node))"
  unfolding selectChild_def by (drule selectChild_fold_mem) simp

lemma selectLoop_returns:
  assumes "treeOK t" and "node < length t"
  shows "\<exists>r. selectLoop env t node = Some r \<and> r < length t"
  using assms(2)
proof (induction "length t - node" arbitrary: node rule: less_induct)
  case less
  show ?case
  proof (cases "untriedMoves (t ! node) = [] \<and> checkWinner (boardState (t ! node)) = EMPTY")
    case False
    then have "selectLoop env t node = Some node"
      by (subst selectLoop.simps) auto
    with less.prems show ?thesis by simp
  next
    case True
    show ?thesis
    proof (cases "selectChild env t node")
      case None
      with True have "selectLoop env t node = Some node"
        by (subst selectLoop.simps) simp
      with less.prems show ?thesis by simp
    next
      case (Some c)
      from treeOK_children [OF assms(1) less.prems selectChild_mem [OF Some]]
      have c: "node < c" "c < length t"
        by simp_all
      then have "length t - c < length t - node"
        by simp
      from less.hyps [OF this c(2)] obtain r where "selectLoop env t c = Some r" "r < length t"
        by blast
      moreover from True Some have "selectLoop env t node = selectLoop env t c"
        by (subst selectLoop.simps) simp
      ultimately show ?thesis by simp
    qed
  qed
qed

lemma selectLoop_stays:
  assumes "untriedMoves (t ! node) \<noteq> [] \<or> checkWinner (boardState (t ! node)) \<noteq> EMPTY"
  shows "selectLoop env t node = Some node"
  using assms by (subst selectLoop.simps) auto

lemma treeOKI:
  assumes "t \<noteq> []" and "parent (t ! 0) = None"
    and "\<And>p. p < length t \<Longrightarrow> 0 < p \<Longrightarrow> \<exists>q<p. parent (t ! p) = Some q"
    and "\<And>p c. p < length t \<Longrightarrow> c \<in> set (children (t ! p)) \<Longrightarrow> p < c \<and> c < length t"
  shows "treeOK t"
  unfolding treeOK_def using assms by blast

subsection \<open>Expansion\<close>

text \<open>
  The heap after \<^verbatim>\<open>expandNode(node)\<close>: the node has lost its last untried move and gained
  the new child, which is appended to the heap.
\<close>

definition expanded :: "MCTSNode list \<Rightarrow> nat \<Rightarrow> Move list \<Rightarrow> MCTSNode list" where
  "expanded t node moves =
     t[node := (t ! node)\<lparr>untriedMoves := butlast (untriedMoves (t ! node)),
                          children := children (t ! node) @ [length t]\<rparr>]
     @ [\<lparr>boardState = setCell (boardState (t ! node)) (fst (last (untriedMoves (t ! node))))
                        (snd (last (untriedMoves (t ! node)))) (playerToMove (t ! node)),
         playerToMove = (if playerToMove (t ! node) = PLAYER then COMPUTER else PLAYER),
         lastMove = last (untriedMoves (t ! node)), W = 0, N = 0,
         parent = Some node, children = [], untriedMoves = moves\<rparr>]"

lemma expandNode_unfold:
  assumes "node < length (tree s)" and "untriedMoves (tree s ! node) \<noteq> []"
  shows "\<exists>moves k. expandNode env s node =
           Some (length (tree s), \<lparr>tree = expanded (tree s) node moves, rcalls = k\<rparr>)"
proof -
  let ?t = "tree s"
  let ?nb = "setCell (boardState (?t ! node)) (fst (last (untriedMoves (?t ! node))))
                        (snd (last (untriedMoves (?t ! node)))) (playerToMove (?t ! node))"
  obtain moves k where sh: "random_shuffle env (rcalls s) (freeCells ?nb) = (moves, k)"
    by (cases "random_shuffle env (rcalls s) (freeCells ?nb)")
  have "expandNode env s node =
           Some (length ?t, \<lparr>tree = expanded ?t node moves, rcalls = k\<rparr>)"
    using assms sh
    by (simp add: expandNode_def newNode_def Let_def expanded_def nth_append
        list_update_append1)
  then show ?thesis by blast
qed

lemma expanded_length: "length (expanded t node moves) = Suc (length t)"
  by (simp add: expanded_def)

lemma expanded_new:
  "parent (expanded t node moves ! length t) = Some node"
  "children (expanded t node moves ! length t) = []"
  "N (expanded t node moves ! length t) = 0"
  "lastMove (expanded t node moves ! length t) = last (untriedMoves (t ! node))"
  by (simp_all add: expanded_def nth_append)

lemma expanded_node:
  assumes "node < length t"
  shows "parent (expanded t node moves ! node) = parent (t ! node)"
    "children (expanded t node moves ! node) = children (t ! node) @ [length t]"
    "untriedMoves (expanded t node moves ! node) = butlast (untriedMoves (t ! node))"
    "N (expanded t node moves ! node) = N (t ! node)"
    "lastMove (expanded t node moves ! node) = lastMove (t ! node)"
    "boardState (expanded t node moves ! node) = boardState (t ! node)"
  using assms by (simp_all add: expanded_def nth_append)

lemma expanded_other:
  assumes "p < length t" and "p \<noteq> node"
  shows "expanded t node moves ! p = t ! p"
  using assms by (simp add: expanded_def nth_append)

lemma expanded_treeOK:
  assumes "treeOK t" and "node < length t"
  shows "treeOK (expanded t node moves)"
proof (rule treeOKI)
  show "expanded t node moves \<noteq> []"
    by (simp add: expanded_def)
  show "parent (expanded t node moves ! 0) = None"
  proof (cases "node = 0")
    case True
    with expanded_node(1) [OF assms(2), of moves] treeOK_root [OF assms(1)] show ?thesis
      by simp
  next
    case False
    with expanded_other [of 0 t node moves] treeOK_root [OF assms(1)] show ?thesis
      by simp
  qed
next
  fix p
  assume p: "p < length (expanded t node moves)" "0 < p"
  show "\<exists>q<p. parent (expanded t node moves ! p) = Some q"
  proof (cases "p = length t")
    case True
    with expanded_new(1) [of t node moves] assms(2) show ?thesis
      by simp
  next
    case False
    with p(1) have pl: "p < length t"
      by (simp add: expanded_length)
    have "parent (expanded t node moves ! p) = parent (t ! p)"
      using expanded_node(1) [OF assms(2), of moves] expanded_other [OF pl, of node moves]
      by (cases "p = node") simp_all
    with treeOK_parent [OF assms(1) pl p(2)] show ?thesis
      by simp
  qed
next
  fix p c
  assume p: "p < length (expanded t node moves)"
    and c: "c \<in> set (children (expanded t node moves ! p))"
  show "p < c \<and> c < length (expanded t node moves)"
  proof (cases "p = length t")
    case True
    with c expanded_new(2) [of t node moves] show ?thesis
      by simp
  next
    case False
    with p have pl: "p < length t"
      by (simp add: expanded_length)
    show ?thesis
    proof (cases "p = node")
      case True
      with c expanded_node(2) [OF assms(2), of moves]
      have "c \<in> set (children (t ! p)) \<or> c = length t"
        by auto
      then show ?thesis
      proof
        assume "c \<in> set (children (t ! p))"
        from treeOK_children [OF assms(1) pl this] show ?thesis
          by (simp add: expanded_length)
      next
        assume "c = length t"
        with pl show ?thesis
          by (simp add: expanded_length)
      qed
    next
      case False
      with c expanded_other [OF pl False, of moves] have "c \<in> set (children (t ! p))"
        by simp
      from treeOK_children [OF assms(1) pl this] show ?thesis
        by (simp add: expanded_length)
    qed
  qed
qed

lemma rootOK_board: "rootOK b t \<Longrightarrow> boardState (t ! 0) = b"
  unfolding rootOK_def by (elim conjE)

lemma rootOK_untried: "rootOK b t \<Longrightarrow> set (untriedMoves (t ! 0)) \<subseteq> set (freeCells b)"
  unfolding rootOK_def by (elim conjE)

lemma rootOK_children:
  "rootOK b t \<Longrightarrow> c \<in> set (children (t ! 0)) \<Longrightarrow> lastMove (t ! c) \<in> set (freeCells b)"
  unfolding rootOK_def by (elim conjE) (erule (1) bspec)

lemma rootOK_visits: "rootOK b t \<Longrightarrow> p < length t \<Longrightarrow> 0 \<le> N (t ! p)"
  unfolding rootOK_def by (elim conjE allE [of _ p]) (erule (1) impE)

lemma rootOK_open:
  "rootOK b t \<Longrightarrow> checkWinner b = EMPTY \<Longrightarrow> untriedMoves (t ! 0) \<noteq> [] \<or> children (t ! 0) \<noteq> []"
  unfolding rootOK_def by (elim conjE) (erule (1) impE)

lemma rootOK_over: "rootOK b t \<Longrightarrow> checkWinner b \<noteq> EMPTY \<Longrightarrow> children (t ! 0) = []"
  unfolding rootOK_def by (elim conjE) (erule (1) impE)

lemma rootOKI:
  assumes "boardState (t ! 0) = b" and "set (untriedMoves (t ! 0)) \<subseteq> set (freeCells b)"
    and "\<And>c. c \<in> set (children (t ! 0)) \<Longrightarrow> lastMove (t ! c) \<in> set (freeCells b)"
    and "\<And>p. p < length t \<Longrightarrow> 0 \<le> N (t ! p)"
    and "checkWinner b = EMPTY \<Longrightarrow> untriedMoves (t ! 0) \<noteq> [] \<or> children (t ! 0) \<noteq> []"
    and "checkWinner b \<noteq> EMPTY \<Longrightarrow> children (t ! 0) = []"
  shows "rootOK b t"
  unfolding rootOK_def using assms by blast

lemma expanded_rootOK:
  assumes ok: "treeOK t" and root: "rootOK b t" and node: "node < length t"
    and um: "untriedMoves (t ! node) \<noteq> []"
    and win: "checkWinner (boardState (t ! node)) = EMPTY"
  shows "rootOK b (expanded t node moves)"
proof (rule rootOKI)
  let ?t2 = "expanded t node moves"
  have zero: "0 < length t"
    using treeOK_root [OF ok] by simp
  have same: "?t2 ! 0 = t ! 0" if "node \<noteq> 0"
    using expanded_other [OF zero, of node moves] that by simp
  show "boardState (?t2 ! 0) = b"
    using expanded_node(6) [OF node, of moves] same rootOK_board [OF root]
    by (cases "node = 0") simp_all
  show "set (untriedMoves (?t2 ! 0)) \<subseteq> set (freeCells b)"
  proof (cases "node = 0")
    case True
    with expanded_node(3) [OF node, of moves]
    have "set (untriedMoves (?t2 ! 0)) \<subseteq> set (untriedMoves (t ! 0))"
      by (auto dest: in_set_butlastD)
    with rootOK_untried [OF root] show ?thesis by blast
  next
    case False
    with same rootOK_untried [OF root] show ?thesis by simp
  qed
  show "lastMove (?t2 ! c) \<in> set (freeCells b)" if c: "c \<in> set (children (?t2 ! 0))" for c
  proof (cases "node = 0")
    case True
    with c expanded_node(2) [OF node, of moves]
    have "c \<in> set (children (t ! 0)) \<or> c = length t"
      by auto
    then show ?thesis
    proof
      assume old: "c \<in> set (children (t ! 0))"
      from treeOK_children [OF ok zero old] True have "c < length t" "c \<noteq> node"
        by simp_all
      with expanded_other [of c t node moves] rootOK_children [OF root old] show ?thesis
        by simp
    next
      assume "c = length t"
      with expanded_new(4) [of t node moves] True um rootOK_untried [OF root] show ?thesis
        by auto
    qed
  next
    case False
    with c same have old: "c \<in> set (children (t ! 0))"
      by simp
    from treeOK_children [OF ok zero old] have cl: "c < length t"
      by simp
    have "lastMove (?t2 ! c) = lastMove (t ! c)"
      using expanded_node(5) [OF node, of moves] expanded_other [OF cl, of node moves]
      by (cases "c = node") simp_all
    with rootOK_children [OF root old] show ?thesis
      by simp
  qed
  show "0 \<le> N (?t2 ! p)" if p: "p < length ?t2" for p
  proof (cases "p = length t")
    case True
    with expanded_new(3) [of t node moves] show ?thesis by simp
  next
    case False
    with p have pl: "p < length t"
      by (simp add: expanded_length)
    have "N (?t2 ! p) = N (t ! p)"
      using expanded_node(4) [OF node, of moves] expanded_other [OF pl, of node moves]
      by (cases "p = node") simp_all
    with rootOK_visits [OF root pl] show ?thesis by simp
  qed
  show "untriedMoves (?t2 ! 0) \<noteq> [] \<or> children (?t2 ! 0) \<noteq> []" if "checkWinner b = EMPTY"
  proof (cases "node = 0")
    case True
    with expanded_node(2) [OF node, of moves] show ?thesis by simp
  next
    case False
    with same rootOK_open [OF root that] show ?thesis by simp
  qed
  show "children (?t2 ! 0) = []" if over: "checkWinner b \<noteq> EMPTY"
  proof (cases "node = 0")
    case True
    with win rootOK_board [OF root] over show ?thesis by simp
  next
    case False
    with same rootOK_over [OF root over] show ?thesis by simp
  qed
qed

lemma expanded_root:
  assumes "treeOK t" and "node < length t"
  shows "N (expanded t node moves ! 0) = N (t ! 0)"
    and "children (t ! 0) \<noteq> [] \<Longrightarrow> children (expanded t node moves ! 0) \<noteq> []"
    and "node = 0 \<Longrightarrow> children (expanded t node moves ! 0) \<noteq> []"
proof -
  have zero: "0 < length t"
    using treeOK_root [OF assms(1)] by simp
  have same: "expanded t node moves ! 0 = t ! 0" if "node \<noteq> 0"
    using expanded_other [OF zero, of node moves] that by simp
  show "N (expanded t node moves ! 0) = N (t ! 0)"
    using expanded_node(4) [OF assms(2), of moves] same by (cases "node = 0") simp_all
  show "children (expanded t node moves ! 0) \<noteq> []" if "children (t ! 0) \<noteq> []"
    using expanded_node(2) [OF assms(2), of moves] same that by (cases "node = 0") simp_all
  show "children (expanded t node moves ! 0) \<noteq> []" if "node = 0"
    using expanded_node(2) [OF assms(2), of moves] that by simp
qed

subsection \<open>Backpropagation keeps the shape\<close>

lemma visited_fields:
  "parent (visited r nd) = parent nd" "children (visited r nd) = children nd"
  "untriedMoves (visited r nd) = untriedMoves nd" "lastMove (visited r nd) = lastMove nd"
  "boardState (visited r nd) = boardState nd" "playerToMove (visited r nd) = playerToMove nd"
  "N (visited r nd) = N nd + 1" "W (visited r nd) = W nd + (if r = 10 then 1 else 0)"
  by (simp_all add: visited_def)

lemma visits_treeOK:
  assumes "treeOK t" and "length t' = length t"
    and "\<And>q. q < length t \<Longrightarrow> t' ! q = t ! q \<or> t' ! q = visited r (t ! q)"
  shows "treeOK t'"
proof (rule treeOKI)
  have zero: "0 < length t"
    using treeOK_root [OF assms(1)] by simp
  have par: "parent (t' ! q) = parent (t ! q)" if "q < length t" for q
    using assms(3) [OF that] by (auto simp: visited_fields)
  have chi: "children (t' ! q) = children (t ! q)" if "q < length t" for q
    using assms(3) [OF that] by (auto simp: visited_fields)
  show "t' \<noteq> []"
    using zero assms(2) by auto
  show "parent (t' ! 0) = None"
    using par [OF zero] treeOK_root [OF assms(1)] by simp
  show "\<exists>q<p. parent (t' ! p) = Some q" if "p < length t'" "0 < p" for p
    using treeOK_parent [OF assms(1), of p] that par [of p] assms(2) by simp
  show "p < c \<and> c < length t'" if "p < length t'" "c \<in> set (children (t' ! p))" for p c
    using treeOK_children [OF assms(1), of p c] that chi [of p] assms(2) by simp
qed

lemma visits_rootOK:
  assumes "treeOK t" and "rootOK b t" and "length t' = length t"
    and "\<And>q. q < length t \<Longrightarrow> t' ! q = t ! q \<or> t' ! q = visited r (t ! q)"
  shows "rootOK b t'"
proof (rule rootOKI)
  have zero: "0 < length t"
    using treeOK_root [OF assms(1)] by simp
  have chi: "children (t' ! 0) = children (t ! 0)"
    using assms(4) [OF zero] by (auto simp: visited_fields)
  have unt: "untriedMoves (t' ! 0) = untriedMoves (t ! 0)"
    using assms(4) [OF zero] by (auto simp: visited_fields)
  show "boardState (t' ! 0) = b"
    using assms(4) [OF zero] rootOK_board [OF assms(2)] by (auto simp: visited_fields)
  show "set (untriedMoves (t' ! 0)) \<subseteq> set (freeCells b)"
    using unt rootOK_untried [OF assms(2)] by simp
  show "lastMove (t' ! c) \<in> set (freeCells b)" if "c \<in> set (children (t' ! 0))" for c
  proof -
    from that chi have c: "c \<in> set (children (t ! 0))" by simp
    from treeOK_children [OF assms(1) zero c] have "c < length t" by simp
    from assms(4) [OF this] have "lastMove (t' ! c) = lastMove (t ! c)"
      by (auto simp: visited_fields)
    with rootOK_children [OF assms(2) c] show ?thesis by simp
  qed
  show "0 \<le> N (t' ! p)" if "p < length t'" for p
  proof -
    from that assms(3) have p: "p < length t" by simp
    from assms(4) [OF p] have "N (t ! p) \<le> N (t' ! p)"
      by (auto simp: visited_fields)
    with rootOK_visits [OF assms(2) p] show ?thesis by simp
  qed
  show "untriedMoves (t' ! 0) \<noteq> [] \<or> children (t' ! 0) \<noteq> []" if "checkWinner b = EMPTY"
    using rootOK_open [OF assms(2) that] chi unt by simp
  show "children (t' ! 0) = []" if "checkWinner b \<noteq> EMPTY"
    using rootOK_over [OF assms(2) that] chi by simp
qed

lemma backpropagate_tree:
  assumes "treeOK t" and "rootOK b t" and "p < length t"
  shows "\<exists>t'. backpropagate t (Some p) result = Some t' \<and> treeOK t' \<and> rootOK b t' \<and>
           N (t' ! 0) = N (t ! 0) + 1 \<and> children (t' ! 0) = children (t ! 0)"
proof -
  have zero: "0 < length t"
    using treeOK_root [OF assms(1)] by simp
  from backpropagate_path [OF treeOK_parentsOK [OF assms(1)] assms(3), of result]
  obtain t' where t': "backpropagate t (Some p) result = Some t'" "length t' = length t"
    "\<forall>q<length t. t' ! q = (if onPath t p q then visited result (t ! q) else t ! q)"
    by blast
  from t'(3) have each: "t' ! q = t ! q \<or> t' ! q = visited result (t ! q)" if "q < length t" for q
    using that by simp
  from t'(3) zero root_onPath [OF assms(1,3)] have r: "t' ! 0 = visited result (t ! 0)"
    by simp
  have "treeOK t'"
    by (rule visits_treeOK [OF assms(1) t'(2)]) (rule each)
  moreover have "rootOK b t'"
    by (rule visits_rootOK [OF assms(1,2) t'(2)]) (rule each)
  ultimately show ?thesis
    using t'(1) r by (simp add: visited_fields)
qed

subsection \<open>One iteration\<close>

lemma mctsIteration_step:
  assumes ok: "treeOK (tree s)" and root: "rootOK b (tree s)"
  shows "\<exists>s'. mctsIteration env 0 s = Some s' \<and> treeOK (tree s') \<and> rootOK b (tree s') \<and>
           N (tree s' ! 0) = N (tree s ! 0) + 1 \<and>
           (checkWinner b = EMPTY \<longrightarrow> children (tree s' ! 0) \<noteq> [])"
proof -
  let ?t = "tree s"
  have zero: "0 < length ?t"
    using treeOK_root [OF ok] by simp
  from selectLoop_returns [OF ok zero, of env] obtain node where
    sel: "selectLoop env ?t 0 = Some node" and node: "node < length ?t"
    by blast
  have stay: "node = 0" if "untriedMoves (?t ! 0) \<noteq> [] \<or> checkWinner b \<noteq> EMPTY"
    using selectLoop_stays [of ?t 0 env] that sel rootOK_board [OF root] by simp
  let ?grow = "untriedMoves (?t ! node) \<noteq> [] \<and> checkWinner (boardState (?t ! node)) = EMPTY"
  have mid: "\<exists>node1 s1. (if ?grow then expandNode env s node else Some (node, s)) = Some (node1, s1) \<and>
      node1 < length (tree s1) \<and> treeOK (tree s1) \<and> rootOK b (tree s1) \<and>
      N (tree s1 ! 0) = N (?t ! 0) \<and> (checkWinner b = EMPTY \<longrightarrow> children (tree s1 ! 0) \<noteq> [])"
  proof (cases ?grow)
    case True
    then have um: "untriedMoves (?t ! node) \<noteq> []"
      and win: "checkWinner (boardState (?t ! node)) = EMPTY"
      by simp_all
    from expandNode_unfold [OF node um, of env] obtain moves k where
      ex: "expandNode env s node = Some (length ?t, \<lparr>tree = expanded ?t node moves, rcalls = k\<rparr>)"
      by blast
    have "checkWinner b = EMPTY \<longrightarrow> children (expanded ?t node moves ! 0) \<noteq> []"
    proof
      assume op: "checkWinner b = EMPTY"
      from rootOK_open [OF root op] show "children (expanded ?t node moves ! 0) \<noteq> []"
      proof
        assume "untriedMoves (?t ! 0) \<noteq> []"
        then have "node = 0" using stay by simp
        then show ?thesis by (rule expanded_root(3) [OF ok node])
      next
        assume "children (?t ! 0) \<noteq> []"
        then show ?thesis by (rule expanded_root(2) [OF ok node])
      qed
    qed
    moreover from True
    have "(if ?grow then expandNode env s node else Some (node, s)) = expandNode env s node"
      by (rule if_P)
    from this ex have "(if ?grow then expandNode env s node else Some (node, s)) =
        Some (length ?t, \<lparr>tree = expanded ?t node moves, rcalls = k\<rparr>)"
      by (rule trans)
    ultimately show ?thesis
      using expanded_treeOK [OF ok node, of moves]
        expanded_rootOK [OF ok root node um win, of moves]
        expanded_root(1) [OF ok node, of moves]
      by (intro exI [of _ "length ?t"]
          exI [of _ "\<lparr>tree = expanded ?t node moves, rcalls = k\<rparr>"] conjI)
        (simp_all add: expanded_length)
  next
    case False
    have "checkWinner b = EMPTY \<longrightarrow> children (?t ! 0) \<noteq> []"
    proof
      assume op: "checkWinner b = EMPTY"
      from rootOK_open [OF root op] show "children (?t ! 0) \<noteq> []"
      proof
        assume um0: "untriedMoves (?t ! 0) \<noteq> []"
        then have "node = 0" using stay by simp
        with um0 op rootOK_board [OF root] False show ?thesis by simp
      qed
    qed
    moreover from False
    have "(if ?grow then expandNode env s node else Some (node, s)) = Some (node, s)"
      by (rule if_not_P)
    ultimately show ?thesis
      using node ok root by (intro exI [of _ node] exI [of _ s] conjI) simp_all
  qed
  then obtain node1 s1 where
    grown: "(if ?grow then expandNode env s node else Some (node, s)) = Some (node1, s1)"
    and n1: "node1 < length (tree s1)" and ok1: "treeOK (tree s1)" and root1: "rootOK b (tree s1)"
    and vis1: "N (tree s1 ! 0) = N (?t ! 0)"
    and ch1: "checkWinner b = EMPTY \<longrightarrow> children (tree s1 ! 0) \<noteq> []"
    by blast
  let ?winner = "checkWinner (boardState (tree s1 ! node1))"
  obtain result k where
    roll: "(if ?winner = EMPTY
            then simulateGame env (boardState (tree s1 ! node1))
                   (playerToMove (tree s1 ! node1)) (rcalls s1)
            else (if ?winner = COMPUTER then 10 else if ?winner = PLAYER then - 10 else 0,
                  rcalls s1)) = (result, k)"
    by (cases "(if ?winner = EMPTY
            then simulateGame env (boardState (tree s1 ! node1))
                   (playerToMove (tree s1 ! node1)) (rcalls s1)
            else (if ?winner = COMPUTER then 10 else if ?winner = PLAYER then - 10 else 0,
                  rcalls s1))")
  from backpropagate_tree [OF ok1 root1 n1, of result] obtain t' where
    bp: "backpropagate (tree s1) (Some node1) result = Some t'"
    and t': "treeOK t'" "rootOK b t'" "N (t' ! 0) = N (tree s1 ! 0) + 1"
      "children (t' ! 0) = children (tree s1 ! 0)"
    by blast
  have "mctsIteration env 0 s = Some \<lparr>tree = t', rcalls = k\<rparr>"
    unfolding mctsIteration_def sel option.case grown prod.case Let_def roll bp ..
  with t' vis1 ch1 show ?thesis
    by simp
qed

subsection \<open>The whole search\<close>

lemma mctsLoop_steps:
  assumes "treeOK (tree s)" and "rootOK b (tree s)"
  shows "\<exists>s'. mctsLoop env 0 n s = Some s' \<and> treeOK (tree s') \<and> rootOK b (tree s') \<and>
           N (tree s' ! 0) = N (tree s ! 0) + int n \<and>
           (checkWinner b = EMPTY \<and> (0 < n \<or> children (tree s ! 0) \<noteq> []) \<longrightarrow>
              children (tree s' ! 0) \<noteq> [])"
  using assms
proof (induction n arbitrary: s)
  case 0
  then show ?case by simp
next
  case (Suc n)
  from mctsIteration_step [OF Suc.prems, of env] obtain s1 where
    s1: "mctsIteration env 0 s = Some s1" "treeOK (tree s1)" "rootOK b (tree s1)"
      "N (tree s1 ! 0) = N (tree s ! 0) + 1"
      "checkWinner b = EMPTY \<longrightarrow> children (tree s1 ! 0) \<noteq> []"
    by blast
  from Suc.IH [OF s1(2,3)] obtain s' where
    s': "mctsLoop env 0 n s1 = Some s'" "treeOK (tree s')" "rootOK b (tree s')"
      "N (tree s' ! 0) = N (tree s1 ! 0) + int n"
      "checkWinner b = EMPTY \<and> (0 < n \<or> children (tree s1 ! 0) \<noteq> []) \<longrightarrow>
              children (tree s' ! 0) \<noteq> []"
    by blast
  from s1(1) s'(1) have "mctsLoop env 0 (Suc n) s = Some s'"
    by simp
  moreover from s1(4) s'(4) have "N (tree s' ! 0) = N (tree s ! 0) + int (Suc n)"
    by simp
  moreover from s1(5) s'(5) have "checkWinner b = EMPTY \<longrightarrow> children (tree s' ! 0) \<noteq> []"
    by blast
  ultimately show ?case
    using s'(2,3) by blast
qed

lemma open_has_free:
  assumes "checkWinner b = EMPTY"
  shows "freeCells b \<noteq> []"
proof (cases "firstLineMark b")
  case None
  with assms show ?thesis
    by (auto simp: checkWinner_firstLine countFree_def marks_distinct split: if_splits)
next
  case (Some s)
  with firstLineMark_Some [OF Some] assms show ?thesis
    by (simp add: checkWinner_firstLine)
qed

lemma newNode_root:
  assumes "shuffle_ok env"
  shows "\<exists>moves k'. newNode env \<lparr>tree = [], rcalls = k\<rparr> b None (- 1, - 1) COMPUTER =
           (0, \<lparr>tree = [\<lparr>boardState = b, playerToMove = COMPUTER, lastMove = (- 1, - 1),
                           W = 0, N = 0, parent = None, children = [],
                           untriedMoves = moves\<rparr>], rcalls = k'\<rparr>) \<and>
           mset moves = mset (freeCells b)"
proof -
  obtain moves k' where sh: "random_shuffle env k (freeCells b) = (moves, k')"
    by (cases "random_shuffle env k (freeCells b)")
  with assms have "mset moves = mset (freeCells b)"
    unfolding shuffle_ok_def by (metis fst_conv)
  with sh show ?thesis
    by (simp add: newNode_def)
qed

lemma mctsTree_final:
  assumes "shuffle_ok env"
  shows "\<exists>s. mctsTree env b iterations k = Some s \<and> treeOK (tree s) \<and> rootOK b (tree s) \<and>
           N (tree s ! 0) = int (nat iterations) \<and>
           (children (tree s ! 0) = [] \<longleftrightarrow> iterations \<le> 0 \<or> checkWinner b \<noteq> EMPTY)"
proof -
  from newNode_root [OF assms, of k b] obtain moves k' where
    new: "newNode env \<lparr>tree = [], rcalls = k\<rparr> b None (- 1, - 1) COMPUTER =
           (0, \<lparr>tree = [\<lparr>boardState = b, playerToMove = COMPUTER, lastMove = (- 1, - 1),
                           W = 0, N = 0, parent = None, children = [],
                           untriedMoves = moves\<rparr>], rcalls = k'\<rparr>)"
    and perm: "mset moves = mset (freeCells b)"
    by blast
  let ?root = "\<lparr>boardState = b, playerToMove = COMPUTER, lastMove = (- 1, - 1),
                           W = 0, N = 0, parent = None, children = [],
                           untriedMoves = moves\<rparr>"
  let ?s0 = "\<lparr>tree = [?root], rcalls = k'\<rparr>"
  from perm have sets: "set moves = set (freeCells b)"
    by (rule mset_eq_setD)
  have ok0: "treeOK (tree ?s0)"
    by (rule treeOKI) simp_all
  have root0: "rootOK b (tree ?s0)"
  proof (rule rootOKI)
    show "untriedMoves (tree ?s0 ! 0) \<noteq> [] \<or> children (tree ?s0 ! 0) \<noteq> []"
      if "checkWinner b = EMPTY"
      using open_has_free [OF that] sets by auto
  qed (simp_all add: sets)
  from mctsLoop_steps [OF ok0 root0, of env "nat iterations"] obtain s where
    s: "mctsLoop env 0 (nat iterations) ?s0 = Some s" "treeOK (tree s)" "rootOK b (tree s)"
      "N (tree s ! 0) = N (tree ?s0 ! 0) + int (nat iterations)"
      "checkWinner b = EMPTY \<and> (0 < nat iterations \<or> children (tree ?s0 ! 0) \<noteq> []) \<longrightarrow>
              children (tree s ! 0) \<noteq> []"
    by blast
  have run: "mctsTree env b iterations k = Some s"
    using new s(1) by (simp add: mctsTree_def)
  have none: "children (tree s ! 0) = []" if "iterations \<le> 0 \<or> checkWinner b \<noteq> EMPTY"
    using that
  proof
    assume "iterations \<le> 0"
    with s(1) have "s = ?s0" by simp
    then show ?thesis by simp
  next
    assume "checkWinner b \<noteq> EMPTY"
    then show ?thesis by (rule rootOK_over [OF s(3)])
  qed
  have some: "children (tree s ! 0) \<noteq> []" if "\<not> (iterations \<le> 0 \<or> checkWinner b \<noteq> EMPTY)"
    using that s(5) by simp
  from none some have "children (tree s ! 0) = [] \<longleftrightarrow> iterations \<le> 0 \<or> checkWinner b \<noteq> EMPTY"
    by blast
  with run s(2,3,4) show ?thesis
    by simp
qed

text \<open>The final choice among the children of the root.\<close>

lemma bestChild_fold:
  fixes v :: "nat \<Rightarrow> int"
  assumes "fold (\<lambda>child (bestChild, maxVisits).
                  if v child > maxVisits then (Some child, v child)
                  else (bestChild, maxVisits)) cs (b0, m0) = (b1, m1)"
  shows "(b1 = b0 \<and> m1 = m0 \<and> (\<forall>c\<in>set cs. v c \<le> m0)) \<or>
         (\<exists>xs c ys. cs = xs @ c # ys \<and> b1 = Some c \<and> m1 = v c \<and> m0 < v c \<and>
            (\<forall>x\<in>set xs. v x < v c) \<and> (\<forall>y\<in>set ys. v y \<le> v c))"
  using assms
proof (induction cs arbitrary: b0 m0)
  case Nil
  then show ?case by simp
next
  case (Cons a cs)
  show ?case
  proof (cases "v a > m0")
    case True
    with Cons.prems have "fold (\<lambda>child (bestChild, maxVisits).
                  if v child > maxVisits then (Some child, v child)
                  else (bestChild, maxVisits)) cs (Some a, v a) = (b1, m1)"
      by simp
    from Cons.IH [OF this] show ?thesis
    proof
      assume "b1 = Some a \<and> m1 = v a \<and> (\<forall>c\<in>set cs. v c \<le> v a)"
      with True have "a # cs = [] @ a # cs \<and> b1 = Some a \<and> m1 = v a \<and> m0 < v a \<and>
            (\<forall>x\<in>set []. v x < v a) \<and> (\<forall>y\<in>set cs. v y \<le> v a)"
        by simp
      then show ?thesis
        by (intro disjI2 exI [of _ "[]"] exI [of _ a] exI [of _ cs])
    next
      assume "\<exists>xs c ys. cs = xs @ c # ys \<and> b1 = Some c \<and> m1 = v c \<and> v a < v c \<and>
            (\<forall>x\<in>set xs. v x < v c) \<and> (\<forall>y\<in>set ys. v y \<le> v c)"
      then obtain xs c ys where r: "cs = xs @ c # ys" "b1 = Some c" "m1 = v c" "v a < v c"
        "\<forall>x\<in>set xs. v x < v c" "\<forall>y\<in>set ys. v y \<le> v c"
        by blast
      with True have "a # cs = (a # xs) @ c # ys \<and> b1 = Some c \<and> m1 = v c \<and> m0 < v c \<and>
            (\<forall>x\<in>set (a # xs). v x < v c) \<and> (\<forall>y\<in>set ys. v y \<le> v c)"
        by simp
      then show ?thesis
        by (intro disjI2 exI [of _ "a # xs"] exI [of _ c] exI [of _ ys])
    qed
  next
    case False
    with Cons.prems have "fold (\<lambda>child (bestChild, maxVisits).
                  if v child > maxVisits then (Some child, v child)
                  else (bestChild, maxVisits)) cs (b0, m0) = (b1, m1)"
      by simp
    from Cons.IH [OF this] show ?thesis
    proof
      assume "b1 = b0 \<and> m1 = m0 \<and> (\<forall>c\<in>set cs. v c \<le> m0)"
      with False show ?thesis by simp
    next
      assume "\<exists>xs c ys. cs = xs @ c # ys \<and> b1 = Some c \<and> m1 = v c \<and> m0 < v c \<and>
            (\<forall>x\<in>set xs. v x < v c) \<and> (\<forall>y\<in>set ys. v y \<le> v c)"
      then obtain xs c ys where r: "cs = xs @ c # ys" "b1 = Some c" "m1 = v c" "m0 < v c"
        "\<forall>x\<in>set xs. v x < v c" "\<forall>y\<in>set ys. v y \<le> v c"
        by blast
      with False have "a # cs = (a # xs) @ c # ys \<and> b1 = Some c \<and> m1 = v c \<and> m0 < v c \<and>
            (\<forall>x\<in>set (a # xs). v x < v c) \<and> (\<forall>y\<in>set ys. v y \<le> v c)"
        by simp
      then show ?thesis
        by (intro disjI2 exI [of _ "a # xs"] exI [of _ c] exI [of _ ys])
    qed
  qed
qed

lemma bestChildOf_spec:
  assumes "treeOK t" and "rootOK b t"
  shows "(children (t ! 0) = [] \<and> bestChildOf t 0 = None) \<or>
         (\<exists>xs c ys. children (t ! 0) = xs @ c # ys \<and> bestChildOf t 0 = Some c \<and>
            (\<forall>x\<in>set xs. N (t ! x) < N (t ! c)) \<and> (\<forall>y\<in>set ys. N (t ! y) \<le> N (t ! c)))"
proof -
  let ?f = "\<lambda>child (bestChild, maxVisits).
                  if N (t ! child) > maxVisits then (Some child, N (t ! child))
                  else (bestChild, maxVisits)"
  obtain b1 m1 where f: "fold ?f (children (t ! 0)) (None, - 1) = (b1, m1)"
    by (cases "fold ?f (children (t ! 0)) (None, - 1)")
  then have best: "bestChildOf t 0 = b1"
    by (simp add: bestChildOf_def)
  have zero: "0 < length t"
    using treeOK_root [OF assms(1)] by simp
  from bestChild_fold [where v = "\<lambda>c. N (t ! c)", OF f] show ?thesis
  proof
    assume a: "b1 = None \<and> m1 = - 1 \<and> (\<forall>c\<in>set (children (t ! 0)). N (t ! c) \<le> - 1)"
    have "children (t ! 0) = []"
    proof (rule ccontr)
      assume "children (t ! 0) \<noteq> []"
      then obtain c where c: "c \<in> set (children (t ! 0))"
        by (cases "children (t ! 0)") auto
      from treeOK_children [OF assms(1) zero c] have "c < length t" by simp
      from rootOK_visits [OF assms(2) this] a c show False by auto
    qed
    with a best show ?thesis by simp
  next
    assume "\<exists>xs c ys. children (t ! 0) = xs @ c # ys \<and> b1 = Some c \<and> m1 = N (t ! c) \<and>
        - 1 < N (t ! c) \<and> (\<forall>x\<in>set xs. N (t ! x) < N (t ! c)) \<and>
        (\<forall>y\<in>set ys. N (t ! y) \<le> N (t ! c))"
    then obtain xs c ys where "children (t ! 0) = xs @ c # ys" "b1 = Some c"
      "\<forall>x\<in>set xs. N (t ! x) < N (t ! c)" "\<forall>y\<in>set ys. N (t ! y) \<le> N (t ! c)"
      by blast
    with best have "children (t ! 0) = xs @ c # ys \<and> bestChildOf t 0 = Some c \<and>
            (\<forall>x\<in>set xs. N (t ! x) < N (t ! c)) \<and> (\<forall>y\<in>set ys. N (t ! y) \<le> N (t ! c))"
      by simp
    then show ?thesis
      by (intro disjI2 exI [of _ xs] exI [of _ c] exI [of _ ys])
  qed
qed

lemma freeCell_in_bounds:
  assumes "mv \<in> set (freeCells b)"
  shows "mv \<in> set allCells" "fst mv \<in> {0, 1, 2}" "snd mv \<in> {0, 1, 2}"
    "b (fst mv) (snd mv) = EMPTY" "mv \<noteq> (- 1, - 1)" "fst mv \<noteq> - 1"
proof -
  from assms show m: "mv \<in> set allCells" and "b (fst mv) (snd mv) = EMPTY"
    by (simp_all add: freeCells_set)
  from m show "fst mv \<in> {0, 1, 2}" "snd mv \<in> {0, 1, 2}" "mv \<noteq> (- 1, - 1)" "fst mv \<noteq> - 1"
    by (auto simp: allCells_unfold)
qed

lemma runMCTS_result:
  assumes "shuffle_ok env"
  shows "\<exists>s mv. mctsTree env (board w) iterations (rng_calls w) = Some s \<and>
           runMCTS env w iterations = Some (mv, w\<lparr>rng_calls := rcalls s\<rparr>) \<and>
           N (tree s ! 0) = int (nat iterations) \<and>
           (children (tree s ! 0) = [] \<longleftrightarrow> iterations \<le> 0 \<or> checkWinner (board w) \<noteq> EMPTY) \<and>
           (children (tree s ! 0) = [] \<and> mv = (- 1, - 1) \<or>
            mv \<in> set (freeCells (board w)) \<and>
            (\<exists>xs c ys. children (tree s ! 0) = xs @ c # ys \<and> mv = lastMove (tree s ! c) \<and>
               (\<forall>x\<in>set xs. N (tree s ! x) < N (tree s ! c)) \<and>
               (\<forall>y\<in>set ys. N (tree s ! y) \<le> N (tree s ! c))))"
proof -
  from mctsTree_final [OF assms, of "board w" iterations "rng_calls w"] obtain s where
    s: "mctsTree env (board w) iterations (rng_calls w) = Some s" "treeOK (tree s)"
      "rootOK (board w) (tree s)" "N (tree s ! 0) = int (nat iterations)"
      "children (tree s ! 0) = [] \<longleftrightarrow> iterations \<le> 0 \<or> checkWinner (board w) \<noteq> EMPTY"
    by blast
  let ?mv = "case bestChildOf (tree s) 0 of
               Some bestChild \<Rightarrow> lastMove (tree s ! bestChild) | None \<Rightarrow> (- 1, - 1)"
  have run: "runMCTS env w iterations = Some (?mv, w\<lparr>rng_calls := rcalls s\<rparr>)"
    using s(1) by (simp add: runMCTS_def)
  have "children (tree s ! 0) = [] \<and> ?mv = (- 1, - 1) \<or>
            ?mv \<in> set (freeCells (board w)) \<and>
            (\<exists>xs c ys. children (tree s ! 0) = xs @ c # ys \<and> ?mv = lastMove (tree s ! c) \<and>
               (\<forall>x\<in>set xs. N (tree s ! x) < N (tree s ! c)) \<and>
               (\<forall>y\<in>set ys. N (tree s ! y) \<le> N (tree s ! c)))"
    using bestChildOf_spec [OF s(2,3)]
  proof
    assume "children (tree s ! 0) = [] \<and> bestChildOf (tree s) 0 = None"
    then show ?thesis by simp
  next
    assume "\<exists>xs c ys. children (tree s ! 0) = xs @ c # ys \<and> bestChildOf (tree s) 0 = Some c \<and>
            (\<forall>x\<in>set xs. N (tree s ! x) < N (tree s ! c)) \<and>
            (\<forall>y\<in>set ys. N (tree s ! y) \<le> N (tree s ! c))"
    then obtain xs c ys where r: "children (tree s ! 0) = xs @ c # ys"
      "bestChildOf (tree s) 0 = Some c"
      "\<forall>x\<in>set xs. N (tree s ! x) < N (tree s ! c)"
      "\<forall>y\<in>set ys. N (tree s ! y) \<le> N (tree s ! c)"
      by blast
    from r(1) have "c \<in> set (children (tree s ! 0))" by simp
    from rootOK_children [OF s(3) this] r(2) have "?mv \<in> set (freeCells (board w))"
      by simp
    moreover from r have "children (tree s ! 0) = xs @ c # ys \<and> ?mv = lastMove (tree s ! c) \<and>
               (\<forall>x\<in>set xs. N (tree s ! x) < N (tree s ! c)) \<and>
               (\<forall>y\<in>set ys. N (tree s ! y) \<le> N (tree s ! c))"
      by simp
    then have "\<exists>xs c ys. children (tree s ! 0) = xs @ c # ys \<and> ?mv = lastMove (tree s ! c) \<and>
               (\<forall>x\<in>set xs. N (tree s ! x) < N (tree s ! c)) \<and>
               (\<forall>y\<in>set ys. N (tree s ! y) \<le> N (tree s ! c))"
      by (intro exI [of _ xs] exI [of _ c] exI [of _ ys])
    ultimately show ?thesis by (intro disjI2 conjI)
  qed
  with s(1,4,5) run show ?thesis
    by (intro exI [of _ s] exI [of _ ?mv] conjI)
qed

lemma simulateLoop_bound:
  "snd (simulateLoop env tempBoard currentPlayer k)
     \<le> k + countFree tempBoard + (if currentPlayer = EMPTY then 1 else 0) \<and>
   fst (simulateLoop env tempBoard currentPlayer k) \<in> {10, - 10, 0}"
proof (induction env tempBoard currentPlayer k rule: simulateLoop.induct)
  case (1 env tempBoard currentPlayer k)
  show ?case
  proof (cases "checkWinner tempBoard \<noteq> EMPTY")
    case True
    then show ?thesis
      by (subst (1 2) simulateLoop.simps) (simp add: Let_def)
  next
    case ongoing: False
    show ?thesis
    proof (cases "freeCells tempBoard = []")
      case True
      with ongoing show ?thesis
        by (subst (1 2) simulateLoop.simps) (simp add: Let_def)
    next
      case False
      let ?mv = "freeCells tempBoard ! (rand env k mod length (freeCells tempBoard))"
      let ?b' = "setCell tempBoard (fst ?mv) (snd ?mv) currentPlayer"
      let ?p' = "if currentPlayer = PLAYER then COMPUTER else PLAYER"
      have eq: "simulateLoop env tempBoard currentPlayer k = simulateLoop env ?b' ?p' (k + 1)"
        using ongoing False by (subst simulateLoop.simps) (simp add: Let_def)
      from ongoing False have ih: "snd (simulateLoop env ?b' ?p' (k + 1))
          \<le> (k + 1) + countFree ?b' + (if ?p' = EMPTY then 1 else 0) \<and>
          fst (simulateLoop env ?b' ?p' (k + 1)) \<in> {10, - 10, 0}"
        by (intro "1.IH" [OF refl _ refl _ refl refl]) simp_all
      have p': "?p' \<noteq> EMPTY"
        by (simp add: marks_distinct)
      from False have "?mv \<in> set (freeCells tempBoard)"
        by simp
      then have mem: "(fst ?mv, snd ?mv) \<in> set allCells"
        and emp: "tempBoard (fst ?mv) (snd ?mv) = EMPTY"
        by (simp_all add: freeCells_set)
      have "countFree ?b' + 1 \<le> countFree tempBoard + (if currentPlayer = EMPTY then 1 else 0)"
      proof (cases "currentPlayer = EMPTY")
        case True
        with emp have "?b' = tempBoard"
          by (intro ext) (simp add: setCell_apply)
        with True show ?thesis by simp
      next
        case False
        from countFree_setCell [of "fst ?mv" "snd ?mv" tempBoard currentPlayer] mem emp False
        show ?thesis by simp
      qed
      with ih p' show ?thesis
        unfolding eq by simp
    qed
  qed
qed

subsection \<open>Examples\<close>

text \<open>
  An environment for concrete runs: \<^verbatim>\<open>rand()\<close> returns 0, 1, 2, ..., the shuffle is the
  identity (as in the second version of the program), and integers stand in for the
  \<^verbatim>\<open>double\<close> values.
\<close>

definition plainEnv :: "int env" where
  "plainEnv =
     \<lparr>rand = (\<lambda>k. k), random_shuffle = (\<lambda>k moves. (moves, k)),
      ucb_double = (\<lambda>w n parentVisits. (1000 * w) div n), int_max_double = INT_MAX,
      minus_one_double = - 1, greater_double = (\<lambda>x y. x > y)\<rparr>"

text \<open>A position with one free cell and the computer to move, and the globals around it.\<close>

definition lastCell :: board where
  "lastCell = mkBoard [''XOX'', ''XOO'', '' XX'']"

definition lastCellWorld :: world where
  "lastCellWorld = \<lparr>board = lastCell, playerMoves = [(0, 0), (0, 2), (1, 0), (2, 1), (2, 2)],
     computerMoves = [(0, 1), (1, 1), (1, 2)], rng_calls = 0\<rparr>"

text \<open>A heap of two nodes: the root of that position and its only child, not yet visited.\<close>

definition smallTree :: "MCTSNode list" where
  "smallTree =
     [\<lparr>boardState = lastCell, playerToMove = COMPUTER, lastMove = (- 1, - 1), W = 0, N = 0,
       parent = None, children = [1], untriedMoves = []\<rparr>,
      \<lparr>boardState = setCell lastCell 2 0 COMPUTER, playerToMove = PLAYER, lastMove = (2, 0),
       W = 0, N = 0, parent = Some 0, children = [], untriedMoves = []\<rparr>]"

lemma plainEnv_shuffle_ok: "shuffle_ok plainEnv"
  by (simp add: shuffle_ok_def plainEnv_def)

lemma lastCell_free: "freeCells lastCell = [(2, 0)]"
  by (simp add: lastCell_def board_eval)

lemma lastCell_run:
  "runMCTS plainEnv lastCellWorld 1 = Some ((2, 0), lastCellWorld)"
  by (simp add: runMCTS_def mctsTree_def newNode_def plainEnv_def Let_def mctsIteration_def
      selectLoop.simps expandNode_def backpropagate.simps bestChildOf_def board_eval
      lastCellWorld_def lastCell_def)

lemma smallTree_parentsOK: "parentsOK smallTree"
  by (simp add: parentsOK_def smallTree_def less_Suc_eq nth_Cons' all_conj_distrib)

lemma path_reaches_root:
  assumes "parentsOK t" and "p < length t"
  shows "\<exists>r. onPath t p r \<and> parent (t ! r) = None"
  using assms(2)
proof (induction p rule: less_induct)
  case (less p)
  show ?case
  proof (cases "parent (t ! p)")
    case None
    with onPath.here [of t p] show ?thesis by blast
  next
    case (Some q)
    with assms(1) less.prems have q: "q < p"
      by (simp add: parentsOK_def)
    with less.prems have "q < length t" by simp
    from less.IH [OF q this] obtain r where "onPath t q r" "parent (t ! r) = None"
      by blast
    with onPath.up [OF Some] show ?thesis by blast
  qed
qed

subsection \<open>Claims about the tree search\<close>

text \<open>
  Claim C7. On a heap whose parent pointers lead to earlier nodes, \<^verbatim>\<open>backpropagate\<close>
  started at node \<open>p\<close> returns, and the heap it leaves differs from the one it found
  exactly on the path from \<open>p\<close> through its ancestors to the root (the node without
  parent): there each visit count \<open>N\<close> has grown by one and each win score \<open>W\<close> by one if
  the result was 10 (a win of the automated side) and by nothing otherwise (-10 or 0).
  No other field changes, and the side to move at a node plays no part.
\<close>

theorem backpropagate_counts_computer_wins:
  assumes "parentsOK t" and "p < length t"
  shows "\<exists>t'. backpropagate t (Some p) result = Some t' \<and> length t' = length t \<and>
           (\<forall>q<length t. t' ! q =
              (if onPath t p q
               then (t ! q)\<lparr>N := N (t ! q) + 1, W := W (t ! q) + (if result = 10 then 1 else 0)\<rparr>
               else t ! q)) \<and>
           onPath t p p \<and> (\<exists>r. onPath t p r \<and> parent (t ! r) = None)"
proof -
  from backpropagate_path [OF assms, of result]
  have "\<exists>t'. backpropagate t (Some p) result = Some t' \<and> length t' = length t \<and>
           (\<forall>q<length t. t' ! q =
              (if onPath t p q
               then (t ! q)\<lparr>N := N (t ! q) + 1, W := W (t ! q) + (if result = 10 then 1 else 0)\<rparr>
               else t ! q))"
    unfolding visited_def .
  with path_reaches_root [OF assms] onPath.here [of t p] show ?thesis
    by blast
qed

theorem backpropagate_counts_computer_wins_witness:
  "parentsOK smallTree \<and> 1 < length smallTree \<and> onPath smallTree 1 0 \<and>
   (\<exists>t'. backpropagate smallTree (Some 1) 10 = Some t' \<and>
      N (t' ! 0) = 1 \<and> W (t' ! 0) = 1 \<and> N (t' ! 1) = 1 \<and> W (t' ! 1) = 1 \<and>
      playerToMove (t' ! 0) = COMPUTER \<and> playerToMove (t' ! 1) = PLAYER)"
proof -
  have l: "1 < length smallTree"
    by (simp add: smallTree_def)
  have "parent (smallTree ! 1) = Some 0"
    by (simp add: smallTree_def)
  then have path: "onPath smallTree 1 0"
    by (rule onPath.up) (rule onPath.here)
  from backpropagate_counts_computer_wins [OF smallTree_parentsOK l, of 10]
  obtain t' where t': "backpropagate smallTree (Some 1) 10 = Some t'"
    "\<forall>q<length smallTree. t' ! q =
              (if onPath smallTree 1 q
               then (smallTree ! q)\<lparr>N := N (smallTree ! q) + 1,
                      W := W (smallTree ! q) + (if (10::int) = 10 then 1 else 0)\<rparr>
               else smallTree ! q)"
    by blast
  from t'(2) path have "t' ! 0 = (smallTree ! 0)\<lparr>N := N (smallTree ! 0) + 1,
      W := W (smallTree ! 0) + 1\<rparr>"
    by (simp add: smallTree_def)
  moreover from t'(2) l onPath.here [of smallTree 1]
  have "t' ! 1 = (smallTree ! 1)\<lparr>N := N (smallTree ! 1) + 1, W := W (smallTree ! 1) + 1\<rparr>"
    by simp
  ultimately have "N (t' ! 0) = 1 \<and> W (t' ! 0) = 1 \<and> N (t' ! 1) = 1 \<and> W (t' ! 1) = 1 \<and>
      playerToMove (t' ! 0) = COMPUTER \<and> playerToMove (t' ! 1) = PLAYER"
    by (simp add: smallTree_def)
  with t'(1) smallTree_parentsOK l path show ?thesis
    by blast
qed

text \<open>
  Claim C6. For every board, every generator and every iteration budget
  \<open>iterations \<ge> 0\<close>, the iterations of \<^verbatim>\<open>runMCTS\<close> all return, and after them the visit
  count of the root equals \<open>iterations\<close>.
\<close>

theorem root_visits_equal_budget:
  assumes "shuffle_ok env" and "0 \<le> iterations"
  shows "\<exists>s. mctsTree env b iterations k = Some s \<and> N (tree s ! 0) = iterations"
  using mctsTree_final [OF assms(1), of b iterations k] assms(2) by auto

theorem root_visits_equal_budget_witness:
  "shuffle_ok plainEnv \<and> (0::int) \<le> 200 \<and>
   (\<exists>s. mctsTree plainEnv emptyBoard 200 0 = Some s \<and> N (tree s ! 0) = 200)"
  using root_visits_equal_budget [OF plainEnv_shuffle_ok, of 200 emptyBoard 0]
    plainEnv_shuffle_ok
  by simp

lemma lastCellWorld_board: "board lastCellWorld = lastCell" "rng_calls lastCellWorld = 0"
  by (simp_all add: lastCellWorld_def)

lemma lastCell_open: "checkWinner lastCell = EMPTY"
  by (simp add: lastCell_def board_eval)

lemma lastCell_count: "countFree lastCell = 1"
  by (simp add: countFree_def lastCell_free)

text \<open>
  Claim C5. Whatever the generator and the floating-point arithmetic do, \<^verbatim>\<open>runMCTS\<close>
  returns. It returns the sentinel \<^verbatim>\<open>(-1, -1)\<close> exactly when the root has no child after
  the iterations, and the root has no child exactly when no iteration ran
  (\<open>iterations \<le> 0\<close>; for a budget \<open>iterations \<ge> 0\<close> that is \<open>iterations = 0\<close>) or the
  game on the input board is already over. Otherwise it returns the move of a child of
  the root whose visit count is at least that of every child and strictly greater than
  that of every child before it in the root's list of children.
\<close>

theorem runMCTS_most_visited_child:
  assumes "shuffle_ok env"
  shows "\<exists>s mv. mctsTree env (board w) iterations (rng_calls w) = Some s \<and>
           runMCTS env w iterations = Some (mv, w\<lparr>rng_calls := rcalls s\<rparr>) \<and>
           (mv = (- 1, - 1) \<longleftrightarrow> children (tree s ! 0) = []) \<and>
           (children (tree s ! 0) = [] \<longleftrightarrow> iterations \<le> 0 \<or> checkWinner (board w) \<noteq> EMPTY) \<and>
           (0 \<le> iterations \<longrightarrow>
              (children (tree s ! 0) = [] \<longleftrightarrow> iterations = 0 \<or> checkWinner (board w) \<noteq> EMPTY)) \<and>
           (children (tree s ! 0) \<noteq> [] \<longrightarrow>
              (\<exists>xs c ys. children (tree s ! 0) = xs @ c # ys \<and> mv = lastMove (tree s ! c) \<and>
                 (\<forall>x\<in>set xs. N (tree s ! x) < N (tree s ! c)) \<and>
                 (\<forall>y\<in>set ys. N (tree s ! y) \<le> N (tree s ! c))))"
proof -
  from runMCTS_result [OF assms, of w iterations] obtain s mv where
    r: "mctsTree env (board w) iterations (rng_calls w) = Some s"
      "runMCTS env w iterations = Some (mv, w\<lparr>rng_calls := rcalls s\<rparr>)"
      "children (tree s ! 0) = [] \<longleftrightarrow> iterations \<le> 0 \<or> checkWinner (board w) \<noteq> EMPTY"
      "children (tree s ! 0) = [] \<and> mv = (- 1, - 1) \<or>
            mv \<in> set (freeCells (board w)) \<and>
            (\<exists>xs c ys. children (tree s ! 0) = xs @ c # ys \<and> mv = lastMove (tree s ! c) \<and>
               (\<forall>x\<in>set xs. N (tree s ! x) < N (tree s ! c)) \<and>
               (\<forall>y\<in>set ys. N (tree s ! y) \<le> N (tree s ! c)))"
    by (elim exE conjE) (rule that, assumption+)
  from r(4) have sentinel: "mv = (- 1, - 1) \<longleftrightarrow> children (tree s ! 0) = []"
    using freeCell_in_bounds(5) [of mv "board w"] by auto
  from r(4) have best: "children (tree s ! 0) \<noteq> [] \<longrightarrow>
              (\<exists>xs c ys. children (tree s ! 0) = xs @ c # ys \<and> mv = lastMove (tree s ! c) \<and>
                 (\<forall>x\<in>set xs. N (tree s ! x) < N (tree s ! c)) \<and>
                 (\<forall>y\<in>set ys. N (tree s ! y) \<le> N (tree s ! c)))"
    by blast
  from r(3) have zero: "0 \<le> iterations \<longrightarrow>
      (children (tree s ! 0) = [] \<longleftrightarrow> iterations = 0 \<or> checkWinner (board w) \<noteq> EMPTY)"
    by auto
  from r(1,2,3) sentinel zero best show ?thesis
    by (intro exI [of _ s] exI [of _ mv] conjI)
qed

theorem runMCTS_most_visited_child_witness:
  "shuffle_ok plainEnv \<and> (0::int) \<le> 1 \<and> checkWinner (board lastCellWorld) = EMPTY \<and>
   (\<exists>s mv. mctsTree plainEnv (board lastCellWorld) 1 (rng_calls lastCellWorld) = Some s \<and>
      runMCTS plainEnv lastCellWorld 1 = Some (mv, lastCellWorld\<lparr>rng_calls := rcalls s\<rparr>) \<and>
      mv \<noteq> (- 1, - 1) \<and> children (tree s ! 0) \<noteq> [] \<and>
      (\<exists>xs c ys. children (tree s ! 0) = xs @ c # ys \<and> mv = lastMove (tree s ! c) \<and>
         (\<forall>x\<in>set xs. N (tree s ! x) < N (tree s ! c)) \<and>
         (\<forall>y\<in>set ys. N (tree s ! y) \<le> N (tree s ! c))))"
proof -
  have op: "checkWinner (board lastCellWorld) = EMPTY"
    by (simp add: lastCellWorld_board lastCell_open)
  from runMCTS_most_visited_child [OF plainEnv_shuffle_ok, of lastCellWorld 1]
  obtain s mv where
    r: "mctsTree plainEnv (board lastCellWorld) 1 (rng_calls lastCellWorld) = Some s"
      "runMCTS plainEnv lastCellWorld 1 = Some (mv, lastCellWorld\<lparr>rng_calls := rcalls s\<rparr>)"
      "mv = (- 1, - 1) \<longleftrightarrow> children (tree s ! 0) = []"
      "(0::int) \<le> 1 \<longrightarrow>
         (children (tree s ! 0) = [] \<longleftrightarrow> (1::int) = 0 \<or> checkWinner (board lastCellWorld) \<noteq> EMPTY)"
      "children (tree s ! 0) \<noteq> [] \<longrightarrow>
              (\<exists>xs c ys. children (tree s ! 0) = xs @ c # ys \<and> mv = lastMove (tree s ! c) \<and>
                 (\<forall>x\<in>set xs. N (tree s ! x) < N (tree s ! c)) \<and>
                 (\<forall>y\<in>set ys. N (tree s ! y) \<le> N (tree s ! c)))"
    by (elim exE conjE) (rule that, assumption+)
  from r(4) op have c: "children (tree s ! 0) \<noteq> []"
    by simp
  with r(3) have "mv \<noteq> (- 1, - 1)"
    by simp
  moreover from r(5) c have "\<exists>xs c ys. children (tree s ! 0) = xs @ c # ys \<and>
      mv = lastMove (tree s ! c) \<and> (\<forall>x\<in>set xs. N (tree s ! x) < N (tree s ! c)) \<and>
      (\<forall>y\<in>set ys. N (tree s ! y) \<le> N (tree s ! c))"
    by (rule mp)
  ultimately have "\<exists>s mv. mctsTree plainEnv (board lastCellWorld) 1 (rng_calls lastCellWorld) = Some s \<and>
      runMCTS plainEnv lastCellWorld 1 = Some (mv, lastCellWorld\<lparr>rng_calls := rcalls s\<rparr>) \<and>
      mv \<noteq> (- 1, - 1) \<and> children (tree s ! 0) \<noteq> [] \<and>
      (\<exists>xs c ys. children (tree s ! 0) = xs @ c # ys \<and> mv = lastMove (tree s ! c) \<and>
         (\<forall>x\<in>set xs. N (tree s ! x) < N (tree s ! c)) \<and>
         (\<forall>y\<in>set ys. N (tree s ! y) \<le> N (tree s ! c)))"
    using r(1,2) c by (intro exI [of _ s] exI [of _ mv] conjI)
  with plainEnv_shuffle_ok op show ?thesis
    by simp
qed

text \<open>
  Claim C10. Whenever \<^verbatim>\<open>runMCTS\<close> returns a move other than the sentinel, its row and
  column are 0, 1 or 2 and the cell is empty on the input board. \<^verbatim>\<open>mctsMove\<close> then writes
  the computer's mark into that cell, so every cell that was occupied keeps its mark.
\<close>

theorem runMCTS_move_on_empty_cell:
  assumes "shuffle_ok env" and "runMCTS env w iterations = Some (mv, w')"
    and "mv \<noteq> (- 1, - 1)"
  shows "fst mv \<in> {0, 1, 2} \<and> snd mv \<in> {0, 1, 2} \<and> board w (fst mv) (snd mv) = EMPTY \<and>
         (\<exists>w''. mctsMove env iterations w = Some w'' \<and>
            board w'' = setCell (board w) (fst mv) (snd mv) COMPUTER \<and>
            (\<forall>i j. board w i j \<noteq> EMPTY \<longrightarrow> board w'' i j = board w i j))"
proof -
  from runMCTS_result [OF assms(1), of w iterations] obtain s :: search and mv0 where
    r: "runMCTS env w iterations = Some (mv0, w\<lparr>rng_calls := rcalls s\<rparr>)"
      "children (tree s ! 0) = [] \<and> mv0 = (- 1, - 1) \<or>
            mv0 \<in> set (freeCells (board w)) \<and>
            (\<exists>xs c ys. children (tree s ! 0) = xs @ c # ys \<and> mv0 = lastMove (tree s ! c) \<and>
               (\<forall>x\<in>set xs. N (tree s ! x) < N (tree s ! c)) \<and>
               (\<forall>y\<in>set ys. N (tree s ! y) \<le> N (tree s ! c)))"
    by (elim exE conjE) (rule that, assumption+)
  from r(1) assms(2) have eq: "mv0 = mv" "w' = w\<lparr>rng_calls := rcalls s\<rparr>"
    by simp_all
  with r(2) assms(3) have free: "mv \<in> set (freeCells (board w))"
    by blast
  note fb = freeCell_in_bounds [OF free]
  let ?w'' = "w'\<lparr>board := setCell (board w') (fst mv) (snd mv) COMPUTER,
                  computerMoves := computerMoves w' @ [mv]\<rparr>"
  from assms(2) fb(6) have "mctsMove env iterations w = Some ?w''"
    by (simp add: mctsMove_def)
  moreover have "board ?w'' = setCell (board w) (fst mv) (snd mv) COMPUTER"
    by (simp add: eq(2))
  moreover have "\<forall>i j. board w i j \<noteq> EMPTY \<longrightarrow> board ?w'' i j = board w i j"
    using fb(4) by (auto simp: eq(2) setCell_apply)
  ultimately have "\<exists>w''. mctsMove env iterations w = Some w'' \<and>
            board w'' = setCell (board w) (fst mv) (snd mv) COMPUTER \<and>
            (\<forall>i j. board w i j \<noteq> EMPTY \<longrightarrow> board w'' i j = board w i j)"
    by (intro exI [of _ ?w''] conjI)
  with fb(2,3,4) show ?thesis
    by (intro conjI)
qed

theorem runMCTS_move_on_empty_cell_witness:
  "shuffle_ok plainEnv \<and> runMCTS plainEnv lastCellWorld 1 = Some ((2, 0), lastCellWorld) \<and>
   ((2, 0) :: Move) \<noteq> (- 1, - 1) \<and> board lastCellWorld 2 0 = EMPTY \<and>
   (\<exists>w''. mctsMove plainEnv 1 lastCellWorld = Some w'' \<and>
      board w'' = setCell (board lastCellWorld) 2 0 COMPUTER)"
proof -
  have ne: "((2, 0) :: Move) \<noteq> (- 1, - 1)"
    by simp
  from runMCTS_move_on_empty_cell [OF plainEnv_shuffle_ok lastCell_run ne]
    plainEnv_shuffle_ok lastCell_run
  show ?thesis
    by auto
qed

text \<open>
  Claim C3. A call of \<^verbatim>\<open>minimax\<close> with a depth bound above the number of free cells
  returns, for every depth counter, side to move and window (also one with
  \<open>beta \<le> alpha\<close>, where the loop is cut off after the first move it tries), and hands
  the board back exactly as it received it; so does the scan of \<^verbatim>\<open>minimaxMove\<close>. A call
  of \<^verbatim>\<open>runMCTS\<close> returns with the globals as they were, the board among them, except for
  the state of the random generator.
\<close>

theorem searches_leave_board_unchanged:
  assumes "countFree b < fuel" and "shuffle_ok env"
  shows "(\<exists>score. minimax fuel b depth isMaximizing alpha beta = Some (score, b)) \<and>
         (\<exists>bestScore bestMove.
            minimaxScan fuel allCells b INT_MIN (- 1, - 1) = Some (bestScore, bestMove, b)) \<and>
         (\<exists>mv k. runMCTS env w iterations = Some (mv, w\<lparr>rng_calls := k\<rparr>) \<and>
            board (w\<lparr>rng_calls := k\<rparr>) = board w)"
proof (intro conjI)
  show "\<exists>score. minimax fuel b depth isMaximizing alpha beta = Some (score, b)"
    by (rule minimax_frame [OF assms(1)])
  from assms(1) have "countFree b \<le> fuel" by simp
  from minimaxScan_top [OF this]
  show "\<exists>bestScore bestMove.
            minimaxScan fuel allCells b INT_MIN (- 1, - 1) = Some (bestScore, bestMove, b)"
    by blast
  from runMCTS_result [OF assms(2), of w iterations] obtain s :: search and mv where
    "runMCTS env w iterations = Some (mv, w\<lparr>rng_calls := rcalls s\<rparr>)"
    by (elim exE conjE) (rule that, assumption+)
  then show "\<exists>mv k. runMCTS env w iterations = Some (mv, w\<lparr>rng_calls := k\<rparr>) \<and>
            board (w\<lparr>rng_calls := k\<rparr>) = board w"
    by (intro exI [of _ mv] exI [of _ "rcalls s"]) simp
qed

theorem searches_leave_board_unchanged_witness:
  "countFree lastCell < 10 \<and> shuffle_ok plainEnv \<and>
   (\<exists>score. minimax 10 lastCell 0 False 5 5 = Some (score, lastCell)) \<and>
   (\<exists>bestScore bestMove.
      minimaxScan 10 allCells lastCell INT_MIN (- 1, - 1) = Some (bestScore, bestMove, lastCell)) \<and>
   (\<exists>mv k. runMCTS plainEnv lastCellWorld 200 = Some (mv, lastCellWorld\<lparr>rng_calls := k\<rparr>) \<and>
      board (lastCellWorld\<lparr>rng_calls := k\<rparr>) = board lastCellWorld)"
proof -
  have c: "countFree lastCell < 10"
    by (simp add: lastCell_count)
  from searches_leave_board_unchanged [OF c plainEnv_shuffle_ok, of 0 False 5 5 lastCellWorld 200]
    c plainEnv_shuffle_ok
  show ?thesis
    by (intro conjI) simp_all
qed

text \<open>
  Claim C9. Every search returns. \<^verbatim>\<open>minimax\<close> returns within a recursion depth of one
  more than the number of free cells, hence within ten on every board; each rollout
  \<^verbatim>\<open>simulateGame\<close> returns one of the three scores after at most one round more than
  there are free cells (it draws one random number per round); and \<^verbatim>\<open>runMCTS\<close> returns
  for every iteration budget.
\<close>

theorem searches_terminate:
  assumes "countFree b < fuel" and "shuffle_ok env"
  shows "(\<exists>r. minimax fuel b depth isMaximizing alpha beta = Some r) \<and>
         (\<exists>r. minimax 10 b depth isMaximizing alpha beta = Some r) \<and>
         countFree b \<le> 9 \<and>
         snd (simulateGame env b player k) \<le> k + countFree b + 1 \<and>
         fst (simulateGame env b player k) \<in> {10, - 10, 0} \<and>
         (\<exists>r. runMCTS env w iterations = Some r)"
proof (intro conjI)
  from minimax_frame [OF assms(1), of depth isMaximizing alpha beta]
  show "\<exists>r. minimax fuel b depth isMaximizing alpha beta = Some r"
    by blast
  have "countFree b < 10"
    using countFree_le_9 [of b] by simp
  from minimax_frame [OF this, of depth isMaximizing alpha beta]
  show "\<exists>r. minimax 10 b depth isMaximizing alpha beta = Some r"
    by blast
  show "countFree b \<le> 9"
    by (rule countFree_le_9)
  from simulateLoop_bound [of env b player k]
  show "snd (simulateGame env b player k) \<le> k + countFree b + 1"
    and "fst (simulateGame env b player k) \<in> {10, - 10, 0}"
    by (simp_all add: simulateGame_def split: if_splits)
  from runMCTS_result [OF assms(2), of w iterations]
  show "\<exists>r. runMCTS env w iterations = Some r"
    by blast
qed

theorem searches_terminate_witness:
  "countFree emptyBoard < 10 \<and> shuffle_ok plainEnv \<and>
   (\<exists>r. minimax 10 emptyBoard 0 True INT_MIN INT_MAX = Some r) \<and>
   snd (simulateGame plainEnv emptyBoard COMPUTER 0) \<le> 0 + countFree emptyBoard + 1 \<and>
   (\<exists>r. runMCTS plainEnv lastCellWorld 100000 = Some r)"
proof -
  have c: "countFree emptyBoard < 10"
    using countFree_le_9 [of emptyBoard] by simp
  from searches_terminate [OF c plainEnv_shuffle_ok, of 0 True INT_MIN INT_MAX COMPUTER 0
      lastCellWorld 100000] c plainEnv_shuffle_ok
  show ?thesis
    by (intro conjI) simp_all
qed

end
